theory Spec2Isabelle
  imports Main "HOL-Library.Word"
begin

section \<open>The Kafka broadcaster of the orderer (orderer/kafka/broadcast.go)\<close>

text \<open>
  The broadcaster receives client messages on gRPC streams, hands them over a buffered
  channel to one goroutine (\<open>cutBlock\<close>) that collects them into a batch, and cuts a
  block from the batch when it has \<open>BatchSize\<close> messages or when a timer of period
  \<open>BatchTimeout\<close> expires. Blocks are numbered, linked by header hashes, marshalled and
  sent to a Kafka producer.

  The embedding follows the source function by function. State that the source mutates
  is passed explicitly; a panic, a \<open>logger.Fatalf\<close> and an error return are values.
\<close>

subsection \<open>Data\<close>

text \<open>\<open>[]byte\<close>: an Isabelle \<open>char\<close> is one byte, so \<open>string\<close> is a byte slice.\<close>

type_synonym bytes = string

text \<open>A Go \<open>error\<close>, identified by its message.\<close>

datatype error = Error string

fun error_string :: "error \<Rightarrow> string" where
  "error_string (Error s) = s"

text \<open>
  The messages of package \<open>ab\<close> (orderer/atomicbroadcast), as far as broadcast.go reads
  and writes them. Go lets \<open>BroadcastMessage\<close>, \<open>BlockData\<close> and \<open>Block\<close> share the field
  name \<open>Data\<close>; here the three fields are \<open>Data\<close>, \<open>BlockData_Data\<close> and \<open>Block_Data\<close>.
\<close>

record BroadcastMessage =
  Data :: bytes

datatype Status = Status_SUCCESS | Status_OTHER nat

record BroadcastResponse =
  Status :: Status

record BlockHeader =
  Number :: "64 word"
  PreviousHash :: bytes
  DataHash :: bytes

record BlockData =
  BlockData_Data :: "bytes list"

record Block =
  Header :: BlockHeader
  Block_Data :: BlockData

text \<open>
  \<open>config.TopLevel\<close>, flattened to the two fields of \<open>General\<close> that broadcast.go reads:
  \<open>BatchTimeout\<close> is a \<open>time.Duration\<close> (nanoseconds), \<open>BatchSize\<close> a \<open>uint\<close>
  (64 bits on the platforms the orderer is built for).
\<close>

record TopLevel =
  BatchTimeout :: int
  BatchSize :: "64 word"

subsection \<open>What broadcast.go calls and does not define\<close>

text \<open>
  The hash methods of package \<open>ab\<close>, \<open>proto.Marshal\<close>, and the producer (\<open>newProducer\<close>
  and the \<open>Producer\<close> interface are declared elsewhere in package kafka) are parameters
  of the model. A producer is a state of type \<open>'p\<close>; \<open>producer_Send\<close> returns Go's
  \<open>error\<close> result (\<open>None\<close> is \<open>nil\<close>) and the producer's next state.
\<close>

record 'p env =
  newProducer :: "TopLevel \<Rightarrow> 'p"
  producer_Send :: "'p \<Rightarrow> bytes \<Rightarrow> error option \<times> 'p"
  BlockData_Hash :: "BlockData \<Rightarrow> bytes"
  BlockHeader_Hash :: "BlockHeader \<Rightarrow> bytes"
  proto_Marshal :: "Block \<Rightarrow> error + bytes"

subsection \<open>The broadcaster\<close>

text \<open>
  \<open>batchChan\<close> is a buffered channel: its capacity, fixed by \<open>make\<close>, and the messages
  waiting in it, oldest first. (\<open>make\<close> panics when asked for more than the runtime can
  allocate; the configured \<open>BatchSize\<close> is taken to be one it can.) \<open>once\<close> is the
  \<open>sync.Once\<close>: \<open>True\<close> when its function has run. \<open>prevHash\<close> starts as the nil slice,
  which is empty. \<open>newProducer\<close> returns a producer, never nil.
\<close>

record 'a chan =
  cap :: nat
  buf :: "'a list"

definition make_chan :: "nat \<Rightarrow> 'a chan" where
  "make_chan n = \<lparr>cap = n, buf = []\<rparr>"

record 'p broadcasterImpl =
  producer :: 'p
  config :: TopLevel
  once :: bool
  batchChan :: "BroadcastMessage chan"
  messages :: "bytes list"
  nextNumber :: "64 word"
  prevHash :: bytes

definition newBroadcaster :: "'p env \<Rightarrow> TopLevel \<Rightarrow> 'p broadcasterImpl" where
  "newBroadcaster env conf =
     \<lparr>producer = newProducer env conf,
      config = conf,
      once = False,
      batchChan = make_chan (unat (BatchSize conf)),
      messages = [''genesis''],
      nextNumber = 0,
      prevHash = []\<rparr>"

subsection \<open>sendBlock\<close>

text \<open>
  \<open>sendBlock\<close> builds the block from the pending messages and the chain state, then
  clears the messages and advances the chain state, then marshals, then sends.
  Its outcome is either \<open>Sent block r\<close>: the block was marshalled and passed to
  \<open>producer.Send\<close>, which returned \<open>r\<close> (what \<open>sendBlock\<close> returns); or \<open>Exited err\<close>:
  \<open>proto.Marshal\<close> failed and \<open>logger.Fatalf\<close> ended the process before any send.
\<close>

datatype outcome = Sent Block "error option" | Exited error

definition buildBlock :: "'p env \<Rightarrow> 'p broadcasterImpl \<Rightarrow> Block" where
  "buildBlock env b =
     (let data = \<lparr>BlockData_Data = messages b\<rparr>
      in \<lparr>Header = \<lparr>Number = nextNumber b,
                     PreviousHash = prevHash b,
                     DataHash = BlockData_Hash env data\<rparr>,
          Block_Data = data\<rparr>)"

definition sendBlock :: "'p env \<Rightarrow> 'p broadcasterImpl \<Rightarrow> outcome \<times> 'p broadcasterImpl" where
  "sendBlock env b =
     (let block = buildBlock env b;
          b1 = b\<lparr>messages := [],
                 nextNumber := nextNumber b + 1,
                 prevHash := BlockHeader_Hash env (Header block)\<rparr>
      in case proto_Marshal env block of
           Inl err \<Rightarrow> (Exited err, b1)
         | Inr blockBytes \<Rightarrow>
             (case producer_Send env (producer b1) blockBytes of
                (r, p') \<Rightarrow> (Sent block r, b1\<lparr>producer := p'\<rparr>)))"

subsection \<open>The timer\<close>

text \<open>
  A \<open>time.Timer\<close> as \<open>cutBlock\<close> uses it. \<open>active\<close>: the timer is running and will
  fire when \<open>remaining\<close> nanoseconds have passed; \<open>fired\<close>: a value waits in the
  channel \<open>timer.C\<close> (which holds at most one). \<open>Timer_Stop\<close> returns what \<open>Stop\<close>
  returns: whether the call stopped a running timer. \<open>Timer_recv\<close> is the receive
  \<open>\<^verbatim>\<open><-timer.C\<close>\<close>: \<open>None\<close> when no value waits. \<open>Timer_elapse\<close> lets time pass.
\<close>

record Timer =
  active :: bool
  remaining :: int
  fired :: bool

definition NewTimer :: "int \<Rightarrow> Timer" where
  "NewTimer d = \<lparr>active = True, remaining = d, fired = False\<rparr>"

definition Timer_Stop :: "Timer \<Rightarrow> bool \<times> Timer" where
  "Timer_Stop t = (active t, t\<lparr>active := False\<rparr>)"

definition Timer_Reset :: "Timer \<Rightarrow> int \<Rightarrow> Timer" where
  "Timer_Reset t d = t\<lparr>active := True, remaining := d\<rparr>"

definition Timer_recv :: "Timer \<Rightarrow> Timer option" where
  "Timer_recv t = (if fired t then Some (t\<lparr>fired := False\<rparr>) else None)"

definition Timer_elapse :: "Timer \<Rightarrow> nat \<Rightarrow> Timer" where
  "Timer_elapse t d =
     (if active t then
        (if remaining t \<le> int d then t\<lparr>active := False, remaining := 0, fired := True\<rparr>
         else t\<lparr>remaining := remaining t - int d\<rparr>)
      else t)"

text \<open>
  A timer that is either running or has a value waiting in its channel, never both and
  never neither: what \<open>cutBlock\<close> keeps true of its timer.
\<close>

definition timer_ok :: "Timer \<Rightarrow> bool" where
  "timer_ok t = (active t \<noteq> fired t)"

subsection \<open>cutBlock\<close>

text \<open>
  The goroutine ends in one of three ways: the panic after a failed send, the process
  exit of \<open>logger.Fatalf\<close> after a failed marshal, or a receive from \<open>timer.C\<close> that can
  never complete (the timer is stopped and its channel is empty).
\<close>

datatype halt = Panic error | Exit error | Stuck

text \<open>
  What one iteration passes to \<open>producer.Send\<close>: the block and the result of the send.
\<close>

type_synonym sends = "(Block \<times> error option) list"

text \<open>
  The statement \<open>if err := b.sendBlock(); err != nil { panic(...) }\<close>, which both cases
  of the select end with.
\<close>

definition sendOrPanic :: "'p env \<Rightarrow> 'p broadcasterImpl \<Rightarrow> sends \<times> 'p broadcasterImpl \<times> halt option" where
  "sendOrPanic env b =
     (case sendBlock env b of
        (Exited err, b') \<Rightarrow> ([], b', Some (Exit err))
      | (Sent block None, b') \<Rightarrow> ([(block, None)], b', None)
      | (Sent block (Some err), b') \<Rightarrow>
          ([(block, Some err)], b',
           Some (Panic (Error (''Cannot communicate with Kafka broker: '' @ error_string err)))))"

text \<open>
  The events the select waits for: \<open>Msg msg\<close>, the case \<open>msg := <-b.batchChan\<close> is taken
  with \<open>msg\<close>; \<open>Expire\<close>, the case \<open><-timer.C\<close> is taken (possible only when the timer
  has fired; otherwise nothing happens); \<open>Elapse d\<close>: \<open>d\<close> nanoseconds pass while the
  goroutine waits.
\<close>

datatype event = Msg BroadcastMessage | Expire | Elapse nat

text \<open>
  One iteration of the loop. \<open>int(maxSize)\<close> reads the 64-bit \<open>uint\<close> as signed.
\<close>

definition select_case ::
  "'p env \<Rightarrow> int \<Rightarrow> 64 word \<Rightarrow> 'p broadcasterImpl \<Rightarrow> Timer \<Rightarrow> event
   \<Rightarrow> sends \<times> 'p broadcasterImpl \<times> Timer \<times> halt option" where
  "select_case env period maxSize b timer ev =
     (case ev of
        Msg msg \<Rightarrow>
          (let b1 = b\<lparr>messages := messages b @ [Data msg]\<rparr>
           in if sint maxSize \<le> int (length (messages b1)) then
                (case Timer_Stop timer of
                   (stopped, t1) \<Rightarrow>
                     (case (if \<not> stopped then Timer_recv t1 else Some t1) of
                        None \<Rightarrow> ([], b1, t1, Some Stuck)
                      | Some t2 \<Rightarrow>
                          (case sendOrPanic env b1 of
                             (out, b2, h) \<Rightarrow> (out, b2, Timer_Reset t2 period, h))))
              else ([], b1, timer, None))
      | Expire \<Rightarrow>
          (case Timer_recv timer of
             None \<Rightarrow> ([], b, timer, None)
           | Some t1 \<Rightarrow>
               (let t2 = Timer_Reset t1 period
                in if length (messages b) > 0 then
                     (case sendOrPanic env b of (out, b2, h) \<Rightarrow> (out, b2, t2, h))
                   else ([], b, t2, None)))
      | Elapse d \<Rightarrow> ([], b, Timer_elapse timer d, None))"

text \<open>
  The loop \<open>for { select { ... } }\<close> over the events that occur: it returns all that
  was passed to \<open>producer.Send\<close>, the broadcaster, the timer, and how the goroutine
  ended (\<open>None\<close>: it waits in the select for the next event).
\<close>

fun cutBlock_loop ::
  "'p env \<Rightarrow> int \<Rightarrow> 64 word \<Rightarrow> 'p broadcasterImpl \<Rightarrow> Timer \<Rightarrow> event list
   \<Rightarrow> sends \<times> 'p broadcasterImpl \<times> Timer \<times> halt option" where
  "cutBlock_loop env period maxSize b timer [] = ([], b, timer, None)"
| "cutBlock_loop env period maxSize b timer (ev # evs) =
     (case select_case env period maxSize b timer ev of
        (out, b', timer', Some h) \<Rightarrow> (out, b', timer', Some h)
      | (out, b', timer', None) \<Rightarrow>
          (case cutBlock_loop env period maxSize b' timer' evs of
             (out', r) \<Rightarrow> (out @ out', r)))"

definition cutBlock ::
  "'p env \<Rightarrow> int \<Rightarrow> 64 word \<Rightarrow> 'p broadcasterImpl \<Rightarrow> event list
   \<Rightarrow> sends \<times> 'p broadcasterImpl \<times> Timer \<times> halt option" where
  "cutBlock env period maxSize b evs = cutBlock_loop env period maxSize b (NewTimer period) evs"

subsection \<open>Channels\<close>

text \<open>
  A send on a buffered channel completes at once when the buffer has room and must wait
  otherwise (\<open>None\<close>); a receive takes the oldest buffered value, and must wait when
  there is none. (A waiting send and a waiting receive meet directly: the step
  \<open>Handoff\<close> below.)
\<close>

definition chan_send :: "'a chan \<Rightarrow> 'a \<Rightarrow> 'a chan option" where
  "chan_send c x = (if length (buf c) < cap c then Some (c\<lparr>buf := buf c @ [x]\<rparr>) else None)"

definition chan_recv :: "'a chan \<Rightarrow> ('a \<times> 'a chan) option" where
  "chan_recv c = (case buf c of [] \<Rightarrow> None | x # xs \<Rightarrow> Some (x, c\<lparr>buf := xs\<rparr>))"

subsection \<open>The running broadcaster: Broadcast, recvRequests and the goroutine together\<close>

text \<open>
  Several streams call \<open>Broadcast\<close> concurrently while the goroutine of \<open>cutBlock\<close> runs.
  The model interleaves their steps. A stream handler is identified by a number and is
  at one of these places of \<open>recvRequests\<close>: \<open>AtRecv\<close>, waiting in \<open>stream.Recv()\<close>;
  \<open>AtChanSend msg\<close>, at the send \<open>b.batchChan <- msg\<close>; \<open>AtReply\<close>, about to set the status
  and call \<open>stream.Send(reply)\<close>; \<open>Returned err\<close>, \<open>recvRequests\<close> (and with it
  \<open>Broadcast\<close>) has returned \<open>err\<close>.
\<close>

datatype pc = AtRecv | AtChanSend BroadcastMessage | AtReply | Returned error

text \<open>
  What can be observed from outside, in the order it happens: \<open>Send block r\<close>, the block
  was passed to \<open>producer.Send\<close>, which returned \<open>r\<close>; \<open>Recv h msg\<close>, \<open>stream.Recv()\<close> of
  handler \<open>h\<close> returned \<open>msg\<close>; \<open>Reply h reply r\<close>, handler \<open>h\<close> passed \<open>reply\<close> to
  \<open>stream.Send\<close>, which returned \<open>r\<close>.
\<close>

datatype obs =
    Send Block "error option"
  | Recv nat BroadcastMessage
  | Reply nat BroadcastResponse "error option"

text \<open>
  \<open>goroutine\<close> is \<open>None\<close> until \<open>go b.cutBlock(...)\<close> and holds the timer of \<open>cutBlock\<close>
  from then on; \<open>halted\<close> tells how the goroutine ended, if it did. A panic of the
  goroutine and \<open>logger.Fatalf\<close> end the whole process.
\<close>

record 'p system =
  impl :: "'p broadcasterImpl"
  goroutine :: "Timer option"
  halted :: "halt option"
  handlers :: "nat \<Rightarrow> pc option"
  trace :: "obs list"

definition init :: "'p env \<Rightarrow> TopLevel \<Rightarrow> 'p system" where
  "init env conf =
     \<lparr>impl = newBroadcaster env conf, goroutine = None, halted = None,
      handlers = (\<lambda>h. None), trace = []\<rparr>"

definition alive :: "'p system \<Rightarrow> bool" where
  "alive s = (case halted s of None \<Rightarrow> True | Some Stuck \<Rightarrow> True | Some _ \<Rightarrow> False)"

text \<open>
  \<open>b.once.Do(func() { b.sendBlock(); go b.cutBlock(...) })\<close>. \<open>sync.Once\<close> runs the
  function for the first caller only and lets no caller pass before it has returned,
  so the function is one step. The result of \<open>sendBlock\<close> is dropped.
\<close>

definition once_Do :: "'p env \<Rightarrow> 'p system \<Rightarrow> 'p system" where
  "once_Do env s =
     (if once (impl s) then s
      else case sendBlock env (impl s) of
             (Exited err, b') \<Rightarrow> s\<lparr>impl := b', halted := Some (Exit err)\<rparr>
           | (Sent block r, b') \<Rightarrow>
               s\<lparr>impl := b'\<lparr>once := True\<rparr>,
                 goroutine := Some (NewTimer (BatchTimeout (config b'))),
                 trace := trace s @ [Send block r]\<rparr>)"

text \<open>\<open>Broadcast\<close> for a new stream \<open>h\<close>, up to the first \<open>stream.Recv()\<close> of \<open>recvRequests\<close>.\<close>

definition Broadcast :: "'p env \<Rightarrow> nat \<Rightarrow> 'p system \<Rightarrow> 'p system" where
  "Broadcast env h s =
     (let s1 = once_Do env s
      in if alive s1 then s1\<lparr>handlers := (handlers s1)(h \<mapsto> AtRecv)\<rparr> else s1)"

text \<open>
  The steps of \<open>recvRequests\<close> for handler \<open>h\<close>: \<open>stream.Recv()\<close> returns \<open>r\<close>; the send on
  \<open>batchChan\<close> completes into the buffer; \<open>reply.Status\<close> is set and \<open>stream.Send(reply)\<close>
  returns \<open>r\<close>.
\<close>

definition recvRequests_Recv :: "nat \<Rightarrow> error + BroadcastMessage \<Rightarrow> 'p system \<Rightarrow> 'p system" where
  "recvRequests_Recv h r s =
     (case r of
        Inl err \<Rightarrow> s\<lparr>handlers := (handlers s)(h \<mapsto> Returned err)\<rparr>
      | Inr msg \<Rightarrow> s\<lparr>handlers := (handlers s)(h \<mapsto> AtChanSend msg),
                     trace := trace s @ [Recv h msg]\<rparr>)"

definition recvRequests_chan :: "nat \<Rightarrow> BroadcastMessage \<Rightarrow> 'p system \<Rightarrow> 'p system" where
  "recvRequests_chan h msg s =
     (case chan_send (batchChan (impl s)) msg of
        None \<Rightarrow> s
      | Some c \<Rightarrow> s\<lparr>impl := (impl s)\<lparr>batchChan := c\<rparr>,
                   handlers := (handlers s)(h \<mapsto> AtReply)\<rparr>)"

definition recvRequests_Send :: "nat \<Rightarrow> error option \<Rightarrow> 'p system \<Rightarrow> 'p system" where
  "recvRequests_Send h r s =
     s\<lparr>handlers := (handlers s)(h \<mapsto> (case r of None \<Rightarrow> AtRecv | Some err \<Rightarrow> Returned err)),
       trace := trace s @ [Reply h \<lparr>Status = Status_SUCCESS\<rparr> r]\<rparr>"

text \<open>
  One iteration of the goroutine's loop, with the period and size that \<open>Broadcast\<close>
  passed to \<open>cutBlock\<close> (the configuration is never written).
\<close>

definition goroutine_step :: "'p env \<Rightarrow> Timer \<Rightarrow> event \<Rightarrow> 'p system \<Rightarrow> 'p system" where
  "goroutine_step env t ev s =
     (case select_case env (BatchTimeout (config (impl s))) (BatchSize (config (impl s)))
             (impl s) t ev of
        (out, b', t', h) \<Rightarrow>
          s\<lparr>impl := b', goroutine := Some t', halted := h,
            trace := trace s @ map (\<lambda>(block, r). Send block r) out\<rparr>)"

text \<open>
  The steps of the whole: \<open>Call h\<close>, a new stream \<open>h\<close> calls \<open>Broadcast\<close>;
  \<open>StreamRecv h r\<close>, \<open>StreamSend h r\<close>: the stream of \<open>h\<close> returns \<open>r\<close> from \<open>Recv\<close>, from
  \<open>Send\<close>; \<open>ChanSend h\<close>: the channel send of \<open>h\<close> completes into the buffer;
  \<open>ChanRecv\<close>: the goroutine takes the oldest buffered message; \<open>Handoff h\<close>: the buffer
  is empty and the goroutine, waiting in the select, takes the message of \<open>h\<close> directly
  from its pending send; \<open>TimerC\<close>: the goroutine takes the timer case; \<open>Tick d\<close>: time
  passes. A step that cannot happen in the state leaves it unchanged. After a panic
  or an exit nothing happens any more.
\<close>

datatype sys_event =
    Call nat
  | StreamRecv nat "error + BroadcastMessage"
  | ChanSend nat
  | StreamSend nat "error option"
  | ChanRecv
  | Handoff nat
  | TimerC
  | Tick nat

definition step :: "'p env \<Rightarrow> 'p system \<Rightarrow> sys_event \<Rightarrow> 'p system" where
  "step env s ev =
     (if \<not> alive s then s
      else case ev of
        Call h \<Rightarrow>
          (case handlers s h of None \<Rightarrow> Broadcast env h s | Some _ \<Rightarrow> s)
      | StreamRecv h r \<Rightarrow>
          (case handlers s h of Some AtRecv \<Rightarrow> recvRequests_Recv h r s | _ \<Rightarrow> s)
      | ChanSend h \<Rightarrow>
          (case handlers s h of Some (AtChanSend msg) \<Rightarrow> recvRequests_chan h msg s | _ \<Rightarrow> s)
      | StreamSend h r \<Rightarrow>
          (case handlers s h of Some AtReply \<Rightarrow> recvRequests_Send h r s | _ \<Rightarrow> s)
      | ChanRecv \<Rightarrow>
          (case (goroutine s, halted s, chan_recv (batchChan (impl s))) of
             (Some t, None, Some (msg, c)) \<Rightarrow>
               goroutine_step env t (Msg msg) (s\<lparr>impl := (impl s)\<lparr>batchChan := c\<rparr>\<rparr>)
           | _ \<Rightarrow> s)
      | Handoff h \<Rightarrow>
          (case (goroutine s, halted s, handlers s h, buf (batchChan (impl s))) of
             (Some t, None, Some (AtChanSend msg), []) \<Rightarrow>
               goroutine_step env t (Msg msg) (s\<lparr>handlers := (handlers s)(h \<mapsto> AtReply)\<rparr>)
           | _ \<Rightarrow> s)
      | TimerC \<Rightarrow>
          (case (goroutine s, halted s) of
             (Some t, None) \<Rightarrow> goroutine_step env t Expire s
           | _ \<Rightarrow> s)
      | Tick d \<Rightarrow>
          (case (goroutine s, halted s) of
             (Some t, None) \<Rightarrow> goroutine_step env t (Elapse d) s
           | _ \<Rightarrow> s))"

definition run :: "'p env \<Rightarrow> 'p system \<Rightarrow> sys_event list \<Rightarrow> 'p system" where
  "run env s evs = foldl (step env) s evs"

text \<open>The blocks of a trace, and the part of a trace that belongs to one handler.\<close>

fun sent :: "obs list \<Rightarrow> Block list" where
  "sent [] = []"
| "sent (Send block r # tr) = block # sent tr"
| "sent (_ # tr) = sent tr"

fun of_handler :: "nat \<Rightarrow> obs \<Rightarrow> bool" where
  "of_handler h (Send block r) = False"
| "of_handler h (Recv h' msg) = (h' = h)"
| "of_handler h (Reply h' reply r) = (h' = h)"

text \<open>
  A handler's part of the trace is a dialogue when receives and replies alternate,
  starting with a receive, and every reply carries \<open>Status_SUCCESS\<close>.
\<close>

fun dialogue :: "obs list \<Rightarrow> bool" where
  "dialogue [] = True"
| "dialogue [Recv h msg] = True"
| "dialogue (Recv h msg # Reply h' reply r # tr) = (Status reply = Status_SUCCESS \<and> dialogue tr)"
| "dialogue _ = False"

subsection \<open>Invariants\<close>

text \<open>
  Predicates in which the properties below are proved. The configuration and the
  capacity of the channel never change, and the buffer never holds more than the
  capacity.
\<close>

definition chan_inv :: "TopLevel \<Rightarrow> 'p system \<Rightarrow> bool" where
  "chan_inv conf s =
     (config (impl s) = conf \<and> cap (batchChan (impl s)) = unat (BatchSize conf)
      \<and> length (buf (batchChan (impl s))) \<le> cap (batchChan (impl s)))"

text \<open>
  The blocks sent so far are chained when block \<open>i\<close> has number \<open>i\<close> and, from the second
  on, carries the hash of the header of the block before it; the broadcaster's chain
  state fits them when \<open>nextNumber\<close> is their count and \<open>prevHash\<close> the hash of the last
  header (empty when there is none).
\<close>

definition tip :: "'p env \<Rightarrow> Block list \<Rightarrow> bytes" where
  "tip env blks = (if blks = [] then [] else BlockHeader_Hash env (Header (last blks)))"

definition chained :: "'p env \<Rightarrow> Block list \<Rightarrow> bool" where
  "chained env blks =
     (\<forall>i < length blks.
        Number (Header (blks ! i)) = of_nat i
        \<and> (0 < i \<longrightarrow> PreviousHash (Header (blks ! i)) = BlockHeader_Hash env (Header (blks ! (i - 1)))))"

definition chain_state :: "'p env \<Rightarrow> 'p broadcasterImpl \<Rightarrow> Block list \<Rightarrow> bool" where
  "chain_state env b blks = (nextNumber b = of_nat (length blks) \<and> prevHash b = tip env blks)"

definition chain_inv :: "'p env \<Rightarrow> 'p system \<Rightarrow> bool" where
  "chain_inv env s =
     (chained env (sent (trace s))
      \<and> ((\<exists>err. halted s = Some (Exit err)) \<or> chain_state env (impl s) (sent (trace s))))"

text \<open>
  The genesis block: what \<open>sendBlock\<close> builds from a new broadcaster. After the first
  call of \<open>Broadcast\<close> the broadcaster is either booted (the genesis block was the first
  thing passed to \<open>producer.Send\<close> and the goroutine runs) or the process exited in
  \<open>logger.Fatalf\<close> before anything was sent.
\<close>

definition genesis :: "'p env \<Rightarrow> Block" where
  "genesis env =
     \<lparr>Header = \<lparr>Number = 0, PreviousHash = [],
                 DataHash = BlockData_Hash env \<lparr>BlockData_Data = [''genesis'']\<rparr>\<rparr>,
      Block_Data = \<lparr>BlockData_Data = [''genesis'']\<rparr>\<rparr>"

definition booted :: "'p env \<Rightarrow> 'p system \<Rightarrow> bool" where
  "booted env s =
     (once (impl s) \<and> goroutine s \<noteq> None \<and> (\<exists>r tr. trace s = Send (genesis env) r # tr))"

definition exited_at_boot :: "'p system \<Rightarrow> bool" where
  "exited_at_boot s = (\<not> alive s \<and> trace s = [] \<and> goroutine s = None)"

text \<open>
  A handler owes a reply from the receive of a message up to the call of \<open>stream.Send\<close>.
\<close>

definition replying :: "'p system \<Rightarrow> nat \<Rightarrow> bool" where
  "replying s h = (case handlers s h of
      Some (AtChanSend msg) \<Rightarrow> True | Some AtReply \<Rightarrow> True | _ \<Rightarrow> False)"

definition handler_inv :: "nat \<Rightarrow> 'p system \<Rightarrow> bool" where
  "handler_inv h s =
     (dialogue (filter (of_handler h) (trace s))
      \<and> odd (length (filter (of_handler h) (trace s))) = replying s h)"

subsection \<open>A test double\<close>

text \<open>
  A producer that fails as a script says (one entry per call of \<open>Send\<close>, \<open>True\<close> for an
  error; it succeeds once the script is used up), with hashes and a marshaller simple
  enough to evaluate. Used for the concrete runs below.
\<close>

definition mock_Send :: "bool list \<Rightarrow> bytes \<Rightarrow> error option \<times> bool list" where
  "mock_Send p bs =
     (case p of
        [] \<Rightarrow> (None, [])
      | f # fs \<Rightarrow> (if f then Some (Error ''broker down'') else None, fs))"

definition mockEnv :: "bool list \<Rightarrow> (bool list) env" where
  "mockEnv script =
     \<lparr>newProducer = (\<lambda>conf. script),
      producer_Send = mock_Send,
      BlockData_Hash = (\<lambda>d. concat (BlockData_Data d)),
      BlockHeader_Hash = (\<lambda>h. CHR ''#'' # DataHash h),
      proto_Marshal = (\<lambda>blk. Inr (DataHash (Header blk)))\<rparr>"

definition conf3 :: TopLevel where
  "conf3 = \<lparr>BatchTimeout = 1000, BatchSize = 3\<rparr>"

definition msgA :: BroadcastMessage where
  "msgA = \<lparr>Data = ''A''\<rparr>"

definition msgB :: BroadcastMessage where
  "msgB = \<lparr>Data = ''B''\<rparr>"

definition msgC :: BroadcastMessage where
  "msgC = \<lparr>Data = ''C''\<rparr>"

text \<open>The broadcaster after the genesis block has been sent, as \<open>cutBlock\<close> finds it.\<close>

definition started :: "bool list \<Rightarrow> (bool list) broadcasterImpl" where
  "started script = snd (sendBlock (mockEnv script) (newBroadcaster (mockEnv script) conf3))"

definition conf1 :: TopLevel where
  "conf1 = \<lparr>BatchTimeout = 1000, BatchSize = 1\<rparr>"

text \<open>
  Runs used as examples: two handlers fill a channel of capacity 1; one handler sends
  two messages that are cut by the timer; one handler is answered before the send of
  its block fails.
\<close>

definition full_queue :: "(bool list) system" where
  "full_queue = run (mockEnv []) (init (mockEnv []) conf1)
     [Call 0, Call 1, StreamRecv 0 (Inr msgA), StreamRecv 1 (Inr msgB), ChanSend 0]"

definition chain_demo :: "sys_event list" where
  "chain_demo =
     [Call 0, StreamRecv 0 (Inr msgA), ChanSend 0, ChanRecv, Tick 1000, TimerC,
      StreamSend 0 None, StreamRecv 0 (Inr msgB), ChanSend 0, ChanRecv, Tick 1000, TimerC]"

definition reply_demo :: "sys_event list" where
  "reply_demo =
     [Call 0, StreamRecv 0 (Inr msgA), ChanSend 0, StreamSend 0 None, ChanRecv, Tick 1000, TimerC]"

section \<open>Properties\<close>

lemmas mock_defs = mockEnv_def mock_Send_def conf3_def msgA_def msgB_def msgC_def started_def
  newBroadcaster_def make_chan_def

lemmas sys_defs = run_def step_def init_def alive_def once_Do_def Broadcast_def
  recvRequests_Recv_def recvRequests_chan_def recvRequests_Send_def goroutine_step_def
  chan_send_def chan_recv_def

lemmas cut_defs = cutBlock_def select_case_def sendOrPanic_def sendBlock_def buildBlock_def
  NewTimer_def Timer_Stop_def Timer_Reset_def Timer_recv_def Timer_elapse_def Let_def

subsection \<open>sendBlock and the chain state\<close>

lemma sendBlock_state:
  "messages (snd (sendBlock env b)) = []"
  "nextNumber (snd (sendBlock env b)) = nextNumber b + 1"
  "prevHash (snd (sendBlock env b)) = BlockHeader_Hash env (Header (buildBlock env b))"
  by (simp_all add: sendBlock_def Let_def split: sum.split prod.split)

text \<open>
  C1 (as stated, refuted). The claim: whenever \<open>producer.Send\<close> returns an error,
  \<open>sendBlock\<close> leaves \<open>nextNumber\<close>, \<open>prevHash\<close> and the pending messages unchanged.
  On a fresh broadcaster whose producer fails the first send, the send returns the
  error and all three have changed.
\<close>

theorem sendBlock_failed_send_changes_state:
  "fst (sendBlock (mockEnv [True]) (newBroadcaster (mockEnv [True]) conf3))
     = Sent \<lparr>Header = \<lparr>Number = 0, PreviousHash = [], DataHash = ''genesis''\<rparr>,
             Block_Data = \<lparr>BlockData_Data = [''genesis'']\<rparr>\<rparr>
            (Some (Error ''broker down''))
   \<and> nextNumber (snd (sendBlock (mockEnv [True]) (newBroadcaster (mockEnv [True]) conf3)))
       \<noteq> nextNumber (newBroadcaster (mockEnv [True]) conf3)
   \<and> prevHash (snd (sendBlock (mockEnv [True]) (newBroadcaster (mockEnv [True]) conf3)))
       \<noteq> prevHash (newBroadcaster (mockEnv [True]) conf3)
   \<and> messages (snd (sendBlock (mockEnv [True]) (newBroadcaster (mockEnv [True]) conf3)))
       \<noteq> messages (newBroadcaster (mockEnv [True]) conf3)"
  by (simp add: sendBlock_def buildBlock_def newBroadcaster_def mockEnv_def mock_Send_def
      conf3_def Let_def)

text \<open>
  C1 (amended). \<open>sendBlock\<close> clears the pending messages, adds one to \<open>nextNumber\<close> and
  sets \<open>prevHash\<close> to the hash of the header it built before it marshals and sends:
  the state is advanced whatever \<open>producer.Send\<close> returns, so after a failed send
  \<open>nextNumber\<close> differs from its value before the call.
\<close>

theorem sendBlock_advances_before_send:
  "messages (snd (sendBlock env b)) = []
   \<and> nextNumber (snd (sendBlock env b)) = nextNumber b + 1
   \<and> prevHash (snd (sendBlock env b)) =
       BlockHeader_Hash env
         \<lparr>Number = nextNumber b, PreviousHash = prevHash b,
          DataHash = BlockData_Hash env \<lparr>BlockData_Data = messages b\<rparr>\<rparr>
   \<and> nextNumber (snd (sendBlock env b)) \<noteq> nextNumber b"
  by (simp add: sendBlock_state buildBlock_def Let_def)

subsection \<open>The loop of cutBlock\<close>

lemma sendOrPanic_cases:
  "sendOrPanic env b = (out, b', h) \<Longrightarrow>
     (out = [] \<and> (\<exists>e. h = Some (Exit e)))
   \<or> (out = [(buildBlock env b, None)] \<and> h = None)
   \<or> (\<exists>e. out = [(buildBlock env b, Some e)]
          \<and> h = Some (Panic (Error (''Cannot communicate with Kafka broker: '' @ error_string e))))"
  by (auto simp: sendOrPanic_def sendBlock_def Let_def split: sum.splits prod.splits option.splits)

lemma select_case_cases:
  "select_case env period maxSize b t ev = (out, b', t', h) \<Longrightarrow>
     (out = [] \<and> (\<forall>e. h \<noteq> Some (Panic e)))
   \<or> (\<exists>blk. out = [(blk, None)] \<and> h = None)
   \<or> (\<exists>blk e. out = [(blk, Some e)]
          \<and> h = Some (Panic (Error (''Cannot communicate with Kafka broker: '' @ error_string e))))"
  by (auto simp: select_case_def Let_def split: event.splits prod.splits option.splits if_splits
      dest!: sendOrPanic_cases)

lemma cutBlock_loop_append:
  "cutBlock_loop env period maxSize b t (evs1 @ evs2) =
     (case cutBlock_loop env period maxSize b t evs1 of
        (out, b', t', Some h) \<Rightarrow> (out, b', t', Some h)
      | (out, b', t', None) \<Rightarrow>
          (case cutBlock_loop env period maxSize b' t' evs2 of
             (out', r) \<Rightarrow> (out @ out', r)))"
  by (induction evs1 arbitrary: b t) (auto split: prod.splits option.splits)

lemma cutBlock_loop_sends:
  "cutBlock_loop env period maxSize b t evs = (out, b', t', h) \<Longrightarrow>
     ((\<forall>x \<in> set out. snd x = None) \<and> (\<forall>e. h \<noteq> Some (Panic e)))
   \<or> (\<exists>out0 blk e e'. out = out0 @ [(blk, Some e)] \<and> (\<forall>x \<in> set out0. snd x = None)
          \<and> h = Some (Panic e'))"
proof (induction evs arbitrary: b t out b' t' h)
  case Nil
  then show ?case by simp
next
  case (Cons ev evs)
  obtain o1 b1 t1 h1 where s: "select_case env period maxSize b t ev = (o1, b1, t1, h1)"
    by (metis prod_cases4)
  show ?case
  proof (cases h1)
    case (Some hh)
    with s Cons.prems have "out = o1" "h = h1" by auto
    with select_case_cases[OF s] Some show ?thesis by auto
  next
    case None
    obtain o2 b2 t2 h2 where r: "cutBlock_loop env period maxSize b1 t1 evs = (o2, b2, t2, h2)"
      by (metis prod_cases4)
    with s None Cons.prems have eq: "out = o1 @ o2" "h = h2" by auto
    from select_case_cases[OF s] None have o1: "\<forall>x \<in> set o1. snd x = None" by auto
    from Cons.IH[OF r] show ?thesis
    proof
      assume "(\<forall>x\<in>set o2. snd x = None) \<and> (\<forall>e. h2 \<noteq> Some (Panic e))"
      with o1 eq show ?thesis by auto
    next
      assume "\<exists>out0 blk e e'. o2 = out0 @ [(blk, Some e)] \<and> (\<forall>x\<in>set out0. snd x = None) \<and> h2 = Some (Panic e')"
      then obtain out0 blk e e' where "o2 = out0 @ [(blk, Some e)]" "\<forall>x\<in>set out0. snd x = None" "h2 = Some (Panic e')"
        by blast
      with o1 eq have "out = (o1 @ out0) @ [(blk, Some e)] \<and> (\<forall>x\<in>set (o1 @ out0). snd x = None) \<and> h = Some (Panic e')"
        by auto
      then show ?thesis by blast
    qed
  qed
qed

text \<open>
  C2. Once a send fails inside the loop of \<open>cutBlock\<close>, the goroutine has panicked: the
  failed send is the last entry of everything the loop passed to \<open>producer.Send\<close> (all
  earlier sends succeeded, so there is one failure and no second attempt), and whatever
  messages arrive and timers expire afterwards, the result of the loop is the same:
  no further block is produced.
\<close>

theorem cutBlock_halts_after_failed_send:
  assumes run: "cutBlock env period maxSize b evs = (out, b', t', h)"
    and failed: "(blk, Some e) \<in> set out"
  shows "(\<exists>e'. h = Some (Panic e'))
       \<and> (\<exists>out0. out = out0 @ [(blk, Some e)] \<and> (\<forall>x \<in> set out0. snd x = None))
       \<and> (\<forall>evs'. cutBlock env period maxSize b (evs @ evs') = (out, b', t', h))"
proof -
  from run have r: "cutBlock_loop env period maxSize b (NewTimer period) evs = (out, b', t', h)"
    by (simp add: cutBlock_def)
  from cutBlock_loop_sends[OF r] failed
  obtain out0 blk0 e0 e' where o: "out = out0 @ [(blk0, Some e0)]" "\<forall>x \<in> set out0. snd x = None"
      "h = Some (Panic e')"
    by fastforce
  with failed have "(blk0, Some e0) = (blk, Some e)" by auto
  with o have 1: "\<exists>out0. out = out0 @ [(blk, Some e)] \<and> (\<forall>x \<in> set out0. snd x = None)" by blast
  have 2: "cutBlock env period maxSize b (evs @ evs') = (out, b', t', h)" for evs'
    using r o(3) by (simp add: cutBlock_def cutBlock_loop_append)
  from o(3) 1 2 show ?thesis by blast
qed

lemma demo_failed_run:
  "cutBlock (mockEnv [False, True]) 1000 3 (started [False, True]) [Msg msgA, Msg msgB, Msg msgC]
     = ([(\<lparr>Header = \<lparr>Number = 1, PreviousHash = ''#genesis'', DataHash = ''ABC''\<rparr>,
           Block_Data = \<lparr>BlockData_Data = [''A'', ''B'', ''C'']\<rparr>\<rparr>, Some (Error ''broker down''))],
        (started [False, True])\<lparr>producer := [], messages := [], nextNumber := 2, prevHash := ''#ABC''\<rparr>,
        NewTimer 1000,
        Some (Panic (Error ''Cannot communicate with Kafka broker: broker down'')))"
  by (simp add: mock_defs cut_defs)

theorem cutBlock_halts_after_failed_send_witness:
  "(\<exists>e'. snd (snd (snd (cutBlock (mockEnv [False, True]) 1000 3 (started [False, True])
        [Msg msgA, Msg msgB, Msg msgC]))) = Some (Panic e'))
   \<and> (\<forall>evs'. fst (cutBlock (mockEnv [False, True]) 1000 3 (started [False, True])
        ([Msg msgA, Msg msgB, Msg msgC] @ evs'))
       = [(\<lparr>Header = \<lparr>Number = 1, PreviousHash = ''#genesis'', DataHash = ''ABC''\<rparr>,
           Block_Data = \<lparr>BlockData_Data = [''A'', ''B'', ''C'']\<rparr>\<rparr>, Some (Error ''broker down''))])"
  using cutBlock_halts_after_failed_send [OF demo_failed_run, of _ "Error ''broker down''"]
  by (simp add: demo_failed_run)

subsection \<open>The timer and the size-triggered cut\<close>

lemma timer_ok_NewTimer: "timer_ok (NewTimer d)"
  by (simp add: timer_ok_def NewTimer_def)

lemma timer_ok_elapse: "timer_ok t \<Longrightarrow> timer_ok (Timer_elapse t d)"
  by (auto simp: timer_ok_def Timer_elapse_def)

lemma rearm_after_stop:
  "timer_ok t \<Longrightarrow> Timer_Stop t = (stopped, t1) \<Longrightarrow>
   \<exists>t2. (if \<not> stopped then Timer_recv t1 else Some t1) = Some t2 \<and> Timer_Reset t2 period = NewTimer period"
  by (auto simp: timer_ok_def Timer_Stop_def Timer_recv_def Timer_Reset_def NewTimer_def)

lemma rearm_after_recv:
  "Timer_recv t = Some t1 \<Longrightarrow> Timer_Reset t1 period = NewTimer period"
  by (auto simp: Timer_recv_def Timer_Reset_def NewTimer_def split: if_splits)

lemma elapse_only:
  "\<forall>e \<in> set es. \<exists>d. e = Elapse d \<Longrightarrow> timer_ok t \<Longrightarrow>
   \<exists>t'. cutBlock_loop env period maxSize b t es = ([], b, t', None) \<and> timer_ok t'"
proof (induction es arbitrary: t)
  case Nil
  then show ?case by simp
next
  case (Cons e es)
  then obtain d where e: "e = Elapse d" by auto
  have "timer_ok (Timer_elapse t d)" using Cons.prems(2) by (rule timer_ok_elapse)
  with Cons.IH[of "Timer_elapse t d"] Cons.prems(1)
  obtain t' where "cutBlock_loop env period maxSize b (Timer_elapse t d) es = ([], b, t', None)" "timer_ok t'"
    by auto
  with e show ?case by (simp add: select_case_def)
qed

lemma msg_below_size:
  "\<not> sint maxSize \<le> int (length (messages b)) + 1 \<Longrightarrow>
   select_case env period maxSize b t (Msg m) = ([], b\<lparr>messages := messages b @ [Data m]\<rparr>, t, None)"
  by (simp add: select_case_def Let_def)

lemma sendOrPanic_marshalled:
  "proto_Marshal env (buildBlock env b) = Inr bs \<Longrightarrow>
   \<exists>b' h. sendOrPanic env b = ([(buildBlock env b, fst (producer_Send env (producer b) bs))], b', h)
     \<and> messages b' = [] \<and> nextNumber b' = nextNumber b + 1
     \<and> prevHash b' = BlockHeader_Hash env (Header (buildBlock env b))
     \<and> (h = None) = (fst (producer_Send env (producer b) bs) = None)"
  by (auto simp: sendOrPanic_def sendBlock_def Let_def split: prod.splits option.splits)

lemma msg_at_size:
  assumes "sint maxSize \<le> int (length (messages b)) + 1" "timer_ok t"
    and "proto_Marshal env (buildBlock env (b\<lparr>messages := messages b @ [Data m]\<rparr>)) = Inr bs"
  shows "\<exists>b' h. select_case env period maxSize b t (Msg m) =
           ([(buildBlock env (b\<lparr>messages := messages b @ [Data m]\<rparr>), fst (producer_Send env (producer b) bs))],
            b', NewTimer period, h) \<and> messages b' = []"
proof -
  let ?b1 = "b\<lparr>messages := messages b @ [Data m]\<rparr>"
  obtain stopped t1 where st: "Timer_Stop t = (stopped, t1)" by (cases "Timer_Stop t")
  from rearm_after_stop[OF assms(2) st, of period]
  obtain t2 where t2: "(if \<not> stopped then Timer_recv t1 else Some t1) = Some t2" "Timer_Reset t2 period = NewTimer period"
    by blast
  from sendOrPanic_marshalled[OF assms(3)]
  obtain b' h where sp: "sendOrPanic env ?b1 = ([(buildBlock env ?b1, fst (producer_Send env (producer ?b1) bs))], b', h)"
    "messages b' = []" by blast
  show ?thesis using assms(1) st t2 sp by (simp add: select_case_def Let_def)
qed

text \<open>
  The timer of \<open>cutBlock\<close> is always either running or fired, so the receive that drains
  it after a failed \<open>Stop\<close> always finds a value: the goroutine never gets stuck there.
\<close>

lemma select_case_timer_ok:
  assumes "timer_ok t" "select_case env period maxSize b t ev = (out, b', t', h)"
  shows "timer_ok t' \<and> h \<noteq> Some Stuck"
proof (cases ev)
  case (Msg m)
  obtain stopped t1 where st: "Timer_Stop t = (stopped, t1)" by (cases "Timer_Stop t")
  from rearm_after_stop [OF assms(1) st, of period]
  obtain t2 where t2: "(if \<not> stopped then Timer_recv t1 else Some t1) = Some t2"
    "Timer_Reset t2 period = NewTimer period" by blast
  show ?thesis
  proof (cases "sint maxSize \<le> int (length (messages b)) + 1")
    case True
    obtain o1 b1 h1 where sp: "sendOrPanic env (b\<lparr>messages := messages b @ [Data m]\<rparr>) = (o1, b1, h1)"
      by (metis prod_cases3)
    from sendOrPanic_cases [OF sp] have "h1 \<noteq> Some Stuck" by auto
    moreover from True assms(2) Msg st t2 sp have "t' = NewTimer period" "h = h1"
      by (simp_all add: select_case_def Let_def)
    ultimately show ?thesis by (simp add: timer_ok_NewTimer)
  next
    case False
    with assms Msg show ?thesis by (simp add: select_case_def Let_def)
  qed
next
  case Expire
  with assms show ?thesis
    by (auto simp: select_case_def Let_def timer_ok_NewTimer rearm_after_recv
        split: if_splits prod.splits option.splits dest!: sendOrPanic_cases)
next
  case (Elapse d)
  with assms show ?thesis by (auto simp: select_case_def timer_ok_elapse)
qed

lemma cutBlock_loop_never_stuck:
  "timer_ok t \<Longrightarrow> cutBlock_loop env period maxSize b t evs = (out, b', t', h) \<Longrightarrow>
   timer_ok t' \<and> h \<noteq> Some Stuck"
proof (induction evs arbitrary: b t out)
  case Nil
  then show ?case by simp
next
  case (Cons ev evs)
  obtain o1 b1 t1 h1 where s: "select_case env period maxSize b t ev = (o1, b1, t1, h1)"
    by (metis prod_cases4)
  from select_case_timer_ok [OF Cons.prems(1) s] have ok: "timer_ok t1" "h1 \<noteq> Some Stuck" by auto
  show ?case
  proof (cases h1)
    case (Some hh)
    with s Cons.prems(2) ok show ?thesis by auto
  next
    case None
    obtain o2 r where r: "cutBlock_loop env period maxSize b1 t1 evs = (o2, r)"
      by (cases "cutBlock_loop env period maxSize b1 t1 evs")
    with s None Cons.prems(2) have "r = (b', t', h)" by auto
    with Cons.IH [OF ok(1), of b1 o2] r show ?thesis by simp
  qed
qed

lemma cutBlock_never_stuck:
  "cutBlock env period maxSize b evs = (out, b', t', h) \<Longrightarrow> h \<noteq> Some Stuck"
  by (auto simp: cutBlock_def dest: cutBlock_loop_never_stuck [OF timer_ok_NewTimer])

text \<open>
  C4. With a size threshold of 3 and an empty batch, let \<open>A\<close>, \<open>B\<close>, \<open>C\<close> arrive in
  that order while nothing but the passing of time happens in between (the timer may
  even fire, as long as its case of the select is not taken). Nothing is sent before
  \<open>C\<close> arrives; on its arrival exactly one block is passed to \<open>producer.Send\<close>, with
  the payloads \<open>[A, B, C]\<close> in arrival order, the batch is empty again, and the timer
  is a fresh timer of a full period. The block is assumed to marshal; otherwise
  \<open>logger.Fatalf\<close> ends the process.
\<close>

theorem size_triggered_cut:
  assumes empty: "messages b = []"
    and quiet: "\<forall>e \<in> set es0 \<union> set es1 \<union> set es2. \<exists>d. e = Elapse d"
    and marshal: "proto_Marshal env (buildBlock env (b\<lparr>messages := [Data A, Data B, Data C]\<rparr>)) = Inr bs"
  shows "fst (cutBlock env period 3 b (es0 @ [Msg A] @ es1 @ [Msg B] @ es2)) = []
       \<and> (\<exists>b' h. cutBlock env period 3 b (es0 @ [Msg A] @ es1 @ [Msg B] @ es2 @ [Msg C]) =
             ([(\<lparr>Header = \<lparr>Number = nextNumber b, PreviousHash = prevHash b,
                            DataHash = BlockData_Hash env \<lparr>BlockData_Data = [Data A, Data B, Data C]\<rparr>\<rparr>,
                  Block_Data = \<lparr>BlockData_Data = [Data A, Data B, Data C]\<rparr>\<rparr>,
                fst (producer_Send env (producer b) bs))],
              b', NewTimer period, h)
            \<and> messages b' = [])"
proof -
  let ?run = "cutBlock_loop env period 3"
  from quiet have q0: "\<forall>e \<in> set es0. \<exists>d. e = Elapse d" and q1: "\<forall>e \<in> set es1. \<exists>d. e = Elapse d"
    and q2: "\<forall>e \<in> set es2. \<exists>d. e = Elapse d" by auto
  obtain t0 where t0: "?run b (NewTimer period) es0 = ([], b, t0, None)" "timer_ok t0"
    using elapse_only[OF q0 timer_ok_NewTimer] by blast
  let ?b1 = "b\<lparr>messages := [Data A]\<rparr>"
  have sA: "select_case env period 3 b t0 (Msg A) = ([], ?b1, t0, None)"
    using msg_below_size[of 3 b env period t0 A] empty by simp
  obtain t1 where t1: "?run ?b1 t0 es1 = ([], ?b1, t1, None)" "timer_ok t1"
    using elapse_only[OF q1 t0(2)] by blast
  let ?b2 = "b\<lparr>messages := [Data A, Data B]\<rparr>"
  have sB: "select_case env period 3 ?b1 t1 (Msg B) = ([], ?b2, t1, None)"
    using msg_below_size[of 3 ?b1 env period t1 B] by simp
  obtain t2 where t2: "?run ?b2 t1 es2 = ([], ?b2, t2, None)" "timer_ok t2"
    using elapse_only[OF q2 t1(2)] by blast
  have m: "proto_Marshal env (buildBlock env (?b2\<lparr>messages := messages ?b2 @ [Data C]\<rparr>)) = Inr bs"
    using marshal by simp
  obtain b' h where sC: "select_case env period 3 ?b2 t2 (Msg C) =
      ([(buildBlock env (?b2\<lparr>messages := messages ?b2 @ [Data C]\<rparr>), fst (producer_Send env (producer ?b2) bs))],
       b', NewTimer period, h)" "messages b' = []"
    using msg_at_size[OF _ t2(2) m, of 3 period] by auto
  have before: "?run b (NewTimer period) (es0 @ [Msg A] @ es1 @ [Msg B] @ es2) = ([], ?b2, t2, None)"
    using t0 sA t1 sB t2 by (simp add: cutBlock_loop_append)
  have "?run b (NewTimer period) ((es0 @ [Msg A] @ es1 @ [Msg B] @ es2) @ [Msg C]) =
      ([(buildBlock env (?b2\<lparr>messages := messages ?b2 @ [Data C]\<rparr>), fst (producer_Send env (producer ?b2) bs))],
       b', NewTimer period, h)"
    unfolding cutBlock_loop_append[of _ _ _ _ _ "es0 @ [Msg A] @ es1 @ [Msg B] @ es2"] before
    using sC(1) by (simp split: option.splits)
  then have after: "cutBlock env period 3 b (es0 @ [Msg A] @ es1 @ [Msg B] @ es2 @ [Msg C]) =
      ([(buildBlock env (?b2\<lparr>messages := messages ?b2 @ [Data C]\<rparr>), fst (producer_Send env (producer ?b2) bs))],
       b', NewTimer period, h)"
    by (simp add: cutBlock_def)
  show ?thesis
    using before after sC(2) by (auto simp: cutBlock_def buildBlock_def Let_def)
qed

theorem size_triggered_cut_witness:
  "fst (cutBlock (mockEnv []) 1000 3 (started []) ([Elapse 10] @ [Msg msgA] @ [] @ [Msg msgB] @ [Elapse 2000])) = []
   \<and> (\<exists>b' h. cutBlock (mockEnv []) 1000 3 (started [])
                 ([Elapse 10] @ [Msg msgA] @ [] @ [Msg msgB] @ [Elapse 2000] @ [Msg msgC]) =
        ([(\<lparr>Header = \<lparr>Number = 1, PreviousHash = ''#genesis'', DataHash = ''ABC''\<rparr>,
            Block_Data = \<lparr>BlockData_Data = [''A'', ''B'', ''C'']\<rparr>\<rparr>, None)],
         b', NewTimer 1000, h)
        \<and> messages b' = [])"
proof -
  have e: "messages (started []) = []"
    by (simp add: mock_defs cut_defs)
  have q: "\<forall>e \<in> set [Elapse 10] \<union> set [] \<union> set [Elapse 2000]. \<exists>d. e = Elapse d"
    by simp
  have m: "proto_Marshal (mockEnv []) (buildBlock (mockEnv [])
      ((started [])\<lparr>messages := [Data msgA, Data msgB, Data msgC]\<rparr>)) = Inr ''ABC''"
    by (simp add: mock_defs cut_defs)
  show ?thesis
    using size_triggered_cut [OF e q m, of 1000]
    by (simp add: mock_defs cut_defs)
qed

subsection \<open>The time-triggered cut\<close>

text \<open>
  C5. When the timer has fired and the select takes its case, the timer is rearmed as
  a fresh timer of a full period in every case. With an empty batch nothing else
  happens: nothing is sent and the broadcaster is unchanged. With a non-empty batch
  the block of the whole batch is built and, when it marshals, passed to
  \<open>producer.Send\<close>, and the batch is cleared (when it does not marshal, nothing is sent
  and \<open>logger.Fatalf\<close> ends the process).
\<close>

theorem expiry_cuts_nonempty_batch:
  assumes ready: "fired timer"
  shows "\<exists>out b' h. select_case env period maxSize b timer Expire = (out, b', NewTimer period, h)
       \<and> (messages b = [] \<longrightarrow> out = [] \<and> b' = b \<and> h = None)
       \<and> (messages b \<noteq> [] \<longrightarrow>
            (case proto_Marshal env (buildBlock env b) of
               Inr bs \<Rightarrow> out = [(buildBlock env b, fst (producer_Send env (producer b) bs))]
                          \<and> messages b' = []
             | Inl err \<Rightarrow> out = [] \<and> h = Some (Exit err)))"
proof -
  from ready obtain t1 where t1: "Timer_recv timer = Some t1"
    by (simp add: Timer_recv_def)
  have rearm: "Timer_Reset t1 period = NewTimer period"
    using t1 by (rule rearm_after_recv)
  show ?thesis
  proof (cases "messages b = []")
    case True
    then show ?thesis using t1 rearm by (simp add: select_case_def Let_def)
  next
    case False
    show ?thesis
    proof (cases "proto_Marshal env (buildBlock env b)")
      case (Inl err)
      then have "\<exists>b'. sendOrPanic env b = ([], b', Some (Exit err))"
        by (simp add: sendOrPanic_def sendBlock_def Let_def)
      with False t1 rearm Inl show ?thesis by (auto simp: select_case_def Let_def)
    next
      case (Inr bs)
      from sendOrPanic_marshalled[OF Inr]
      obtain b' h where "sendOrPanic env b = ([(buildBlock env b, fst (producer_Send env (producer b) bs))], b', h)"
        "messages b' = []" by blast
      with False t1 rearm Inr show ?thesis by (simp add: select_case_def Let_def)
    qed
  qed
qed

theorem expiry_cuts_nonempty_batch_witness:
  "(\<exists>b' h. select_case (mockEnv []) 1000 3 ((started [])\<lparr>messages := [''A'', ''B'']\<rparr>)
        (Timer_elapse (NewTimer 1000) 1000) Expire =
      ([(\<lparr>Header = \<lparr>Number = 1, PreviousHash = ''#genesis'', DataHash = ''AB''\<rparr>,
          Block_Data = \<lparr>BlockData_Data = [''A'', ''B'']\<rparr>\<rparr>, None)], b', NewTimer 1000, h)
      \<and> messages b' = [])
   \<and> select_case (mockEnv []) 1000 3 (started []) (Timer_elapse (NewTimer 1000) 1000) Expire =
      ([], started [], NewTimer 1000, None)"
proof -
  have f: "fired (Timer_elapse (NewTimer 1000) 1000)"
    by (simp add: Timer_elapse_def NewTimer_def)
  show ?thesis
    using expiry_cuts_nonempty_batch [OF f, of "mockEnv []" 1000 3 "(started [])\<lparr>messages := [''A'', ''B'']\<rparr>"]
      expiry_cuts_nonempty_batch [OF f, of "mockEnv []" 1000 3 "started []"]
    by (simp add: mock_defs cut_defs)
qed

subsection \<open>Cuts take the whole batch\<close>

lemma sendBlock_takes_all:
  "(case sendBlock env b of
      (Sent blk r, b') \<Rightarrow> BlockData_Data (Block_Data blk) = messages b \<and> messages b' = []
    | (Exited err, b') \<Rightarrow> messages b' = [])"
  by (simp add: sendBlock_def buildBlock_def Let_def split: sum.splits prod.splits)

lemma select_case_step:
  assumes step: "select_case env period maxSize b timer ev = (out, b', timer', h)"
  shows "(out = [] \<and> (messages b' = messages b @ (case ev of Msg m \<Rightarrow> [Data m] | _ \<Rightarrow> [])
                       \<or> (\<exists>err. h = Some (Exit err))))
       \<or> (\<exists>blk r. out = [(blk, r)]
            \<and> BlockData_Data (Block_Data blk) = messages b @ (case ev of Msg m \<Rightarrow> [Data m] | _ \<Rightarrow> [])
            \<and> messages b' = [])"
  using step
  by (auto simp: select_case_def sendOrPanic_def sendBlock_def buildBlock_def Let_def
      split: event.splits prod.splits option.splits if_splits sum.splits outcome.splits)

lemma select_case_takes_all:
  "(case select_case env period maxSize b timer ev of
        (out, b', timer', h) \<Rightarrow>
          (out = [] \<and> (messages b' = messages b @ (case ev of Msg m \<Rightarrow> [Data m] | _ \<Rightarrow> [])
                       \<or> (\<exists>err. h = Some (Exit err))))
        \<or> (\<exists>blk r. out = [(blk, r)]
             \<and> BlockData_Data (Block_Data blk)
                  = messages b @ (case ev of Msg m \<Rightarrow> [Data m] | _ \<Rightarrow> [])
             \<and> messages b' = []))"
proof -
  obtain out b' timer' h where s: "select_case env period maxSize b timer ev = (out, b', timer', h)"
    by (metis prod_cases4)
  from select_case_step[OF s] show ?thesis
    unfolding s by simp
qed

text \<open>
  C7. A cut takes the whole batch or nothing. \<open>sendBlock\<close> puts all pending messages,
  in order, into the block it sends and leaves the batch empty. In one iteration of
  \<open>cutBlock\<close>, with \<open>msgs\<close> the batch before it extended by the message that arrived (if
  one did): either nothing is sent and the batch is \<open>msgs\<close> (or the process has exited
  on a marshalling failure), or exactly one block is sent, its payloads are exactly
  \<open>msgs\<close>, and the batch is empty afterwards.
\<close>

theorem cut_is_atomic:
  "(case sendBlock env b of
      (Sent blk r, b') \<Rightarrow> BlockData_Data (Block_Data blk) = messages b \<and> messages b' = []
    | (Exited err, b') \<Rightarrow> messages b' = [])
   \<and> (case select_case env period maxSize b timer ev of
        (out, b', timer', h) \<Rightarrow>
          (out = [] \<and> (messages b' = messages b @ (case ev of Msg m \<Rightarrow> [Data m] | _ \<Rightarrow> [])
                       \<or> (\<exists>err. h = Some (Exit err))))
        \<or> (\<exists>blk r. out = [(blk, r)]
             \<and> BlockData_Data (Block_Data blk)
                  = messages b @ (case ev of Msg m \<Rightarrow> [Data m] | _ \<Rightarrow> [])
             \<and> messages b' = []))"
  by (rule conjI [OF sendBlock_takes_all select_case_takes_all])

text \<open>
  Over a whole run that has not ended, the payloads of the blocks sent, followed by the
  pending batch, are the batch the run started with followed by the payloads of the
  messages that arrived, in their order.
\<close>

lemma cutBlock_loop_loses_nothing:
  "cutBlock_loop env period maxSize b t evs = (out, b', t', None) \<Longrightarrow>
   concat (map (\<lambda>x. BlockData_Data (Block_Data (fst x))) out) @ messages b'
     = messages b @ concat (map (\<lambda>ev. case ev of Msg m \<Rightarrow> [Data m] | _ \<Rightarrow> []) evs)"
proof (induction evs arbitrary: b t out)
  case Nil
  then show ?case by simp
next
  case (Cons ev evs)
  obtain o1 b1 t1 h1 where s: "select_case env period maxSize b t ev = (o1, b1, t1, h1)"
    by (metis prod_cases4)
  obtain o2 b2 t2 h2 where r: "cutBlock_loop env period maxSize b1 t1 evs = (o2, b2, t2, h2)"
    by (metis prod_cases4)
  from Cons.prems s r have h1: "h1 = None" and eq: "out = o1 @ o2" "b2 = b'" "t2 = t'" "h2 = None"
    by (auto split: option.splits)
  let ?f = "\<lambda>x. BlockData_Data (Block_Data (fst x))"
  let ?g = "\<lambda>ev. case ev of Msg m \<Rightarrow> [Data m] | _ \<Rightarrow> []"
  from select_case_step[OF s] h1
  have first: "concat (map ?f o1) @ messages b1 = messages b @ ?g ev"
    by auto
  from Cons.IH[of b1 t1 o2] r eq
  have rest: "concat (map ?f o2) @ messages b' = messages b1 @ concat (map ?g evs)"
    by simp
  have "concat (map ?f out) @ messages b' = concat (map ?f o1) @ (concat (map ?f o2) @ messages b')"
    using eq by simp
  also have "\<dots> = (concat (map ?f o1) @ messages b1) @ concat (map ?g evs)"
    using rest by simp
  also have "\<dots> = messages b @ concat (map ?g (ev # evs))"
    using first by simp
  finally show ?case .
qed

subsection \<open>The running broadcaster\<close>

lemma run_Nil: "run env s [] = s"
  by (simp add: run_def)

lemma run_snoc: "run env s (evs @ [ev]) = step env (run env s evs) ev"
  by (simp add: run_def)

lemma run_Cons: "run env s (ev # evs) = run env (step env s ev) evs"
  by (simp add: run_def)

lemma sendBlock_frame:
  "sendBlock env b = (oc, b') \<Longrightarrow>
   batchChan b' = batchChan b \<and> config b' = config b \<and> once b' = once b"
  by (auto simp: sendBlock_def Let_def split: sum.splits prod.splits)

lemma sendOrPanic_frame:
  "sendOrPanic env b = (out, b', h) \<Longrightarrow>
   batchChan b' = batchChan b \<and> config b' = config b \<and> once b' = once b"
  by (auto simp: sendOrPanic_def split: prod.splits outcome.splits option.splits
      dest: sendBlock_frame)

lemma select_case_frame:
  "select_case env period maxSize b t ev = (out, b', t', h) \<Longrightarrow>
   batchChan b' = batchChan b \<and> config b' = config b \<and> once b' = once b"
  by (auto simp: select_case_def Let_def split: event.splits prod.splits option.splits if_splits
      dest: sendOrPanic_frame)

lemma goroutine_step_frame:
  "batchChan (impl (goroutine_step env t ev s)) = batchChan (impl s)"
  "config (impl (goroutine_step env t ev s)) = config (impl s)"
  "once (impl (goroutine_step env t ev s)) = once (impl s)"
  "handlers (goroutine_step env t ev s) = handlers s"
  "goroutine (goroutine_step env t ev s) \<noteq> None"
  by (auto simp: goroutine_step_def split: prod.splits dest: select_case_frame)

lemma once_Do_frame:
  "batchChan (impl (once_Do env s)) = batchChan (impl s)"
  "config (impl (once_Do env s)) = config (impl s)"
  "handlers (once_Do env s) = handlers s"
  by (auto simp: once_Do_def split: prod.splits outcome.splits dest: sendBlock_frame)

lemma chan_inv_init: "chan_inv conf (init env conf)"
  by (simp add: chan_inv_def init_def newBroadcaster_def make_chan_def)

lemma chan_inv_step: "chan_inv conf s \<Longrightarrow> chan_inv conf (step env s ev)"
proof (cases ev)
  case (Call h)
  then show "chan_inv conf s \<Longrightarrow> ?thesis"
    by (auto simp: step_def chan_inv_def Broadcast_def Let_def once_Do_frame split: option.splits)
next
  case (StreamRecv h r)
  then show "chan_inv conf s \<Longrightarrow> ?thesis"
    by (auto simp: step_def chan_inv_def recvRequests_Recv_def split: option.splits pc.splits sum.splits)
next
  case (ChanSend h)
  then show "chan_inv conf s \<Longrightarrow> ?thesis"
    by (auto simp: step_def chan_inv_def recvRequests_chan_def chan_send_def
        split: option.splits pc.splits if_splits)
next
  case (StreamSend h r)
  then show "chan_inv conf s \<Longrightarrow> ?thesis"
    by (auto simp: step_def chan_inv_def recvRequests_Send_def split: option.splits pc.splits)
next
  case ChanRecv
  then show "chan_inv conf s \<Longrightarrow> ?thesis"
    by (auto simp: step_def chan_inv_def goroutine_step_frame chan_recv_def
        split: option.splits list.splits)
next
  case (Handoff h)
  then show "chan_inv conf s \<Longrightarrow> ?thesis"
    by (auto simp: step_def chan_inv_def goroutine_step_frame
        split: option.splits list.splits pc.splits)
next
  case TimerC
  then show "chan_inv conf s \<Longrightarrow> ?thesis"
    by (auto simp: step_def chan_inv_def goroutine_step_frame split: option.splits)
next
  case (Tick d)
  then show "chan_inv conf s \<Longrightarrow> ?thesis"
    by (auto simp: step_def chan_inv_def goroutine_step_frame split: option.splits)
qed

lemma chan_inv_run: "chan_inv conf s \<Longrightarrow> chan_inv conf (run env s evs)"
  by (induction evs rule: rev_induct) (simp_all add: run_Nil run_snoc chan_inv_step)

subsection \<open>The channel\<close>

text \<open>
  C10. \<open>newBroadcaster\<close> makes \<open>batchChan\<close> with capacity \<open>BatchSize\<close>, the threshold of
  the size-triggered cut. In every state the running broadcaster reaches the capacity
  is still \<open>BatchSize\<close> and the buffer holds at most that many messages; and a handler
  at its channel send has to wait (its send does not complete into the buffer) exactly
  when \<open>BatchSize\<close> messages are buffered, that is, enqueued and not yet taken by the
  goroutine.
\<close>

theorem intake_queue_bound:
  "cap (batchChan (newBroadcaster env conf)) = unat (BatchSize conf)
   \<and> cap (batchChan (impl (run env (init env conf) evs))) = unat (BatchSize conf)
   \<and> length (buf (batchChan (impl (run env (init env conf) evs)))) \<le> unat (BatchSize conf)
   \<and> (\<forall>h msg. alive (run env (init env conf) evs)
          \<and> handlers (run env (init env conf) evs) h = Some (AtChanSend msg) \<longrightarrow>
          (step env (run env (init env conf) evs) (ChanSend h) = run env (init env conf) evs)
          = (length (buf (batchChan (impl (run env (init env conf) evs)))) = unat (BatchSize conf)))"
proof -
  let ?s = "run env (init env conf) evs"
  have inv: "chan_inv conf ?s"
    by (rule chan_inv_run [OF chan_inv_init])
  have blocks: "(step env ?s (ChanSend h) = ?s)
      = (length (buf (batchChan (impl ?s))) = unat (BatchSize conf))"
    if a: "alive ?s" and pc: "handlers ?s h = Some (AtChanSend msg)" for h msg
  proof (cases "length (buf (batchChan (impl ?s))) < cap (batchChan (impl ?s))")
    case True
    then have "handlers (step env ?s (ChanSend h)) h = Some AtReply"
      using a pc by (simp add: step_def recvRequests_chan_def chan_send_def)
    with pc have "step env ?s (ChanSend h) \<noteq> ?s" by auto
    with True inv show ?thesis by (simp add: chan_inv_def)
  next
    case False
    then have "step env ?s (ChanSend h) = ?s"
      using a pc by (simp add: step_def recvRequests_chan_def chan_send_def)
    with False inv show ?thesis by (simp add: chan_inv_def)
  qed
  show ?thesis
    using inv blocks by (simp add: chan_inv_def newBroadcaster_def make_chan_def)
qed

lemma full_queue_facts:
  "alive full_queue"
  "handlers full_queue 1 = Some (AtChanSend msgB)"
  "buf (batchChan (impl full_queue)) = [msgA]"
  by (simp_all add: full_queue_def sys_defs mock_defs cut_defs conf1_def)

theorem intake_queue_bound_witness:
  "step (mockEnv []) full_queue (ChanSend 1) = full_queue
   \<and> length (buf (batchChan (impl full_queue))) = unat (BatchSize conf1)"
proof -
  note b = intake_queue_bound [of "mockEnv []" conf1
      "[Call 0, Call 1, StreamRecv 0 (Inr msgA), StreamRecv 1 (Inr msgB), ChanSend 0]",
      folded full_queue_def]
  have full: "length (buf (batchChan (impl full_queue))) = unat (BatchSize conf1)"
    by (simp add: full_queue_facts conf1_def)
  from b full_queue_facts(1,2) full
  have "step (mockEnv []) full_queue (ChanSend 1) = full_queue" by blast
  with full show ?thesis by simp
qed

subsection \<open>The chain of blocks\<close>

lemma sent_append: "sent (xs @ ys) = sent xs @ sent ys"
  by (induction xs rule: sent.induct) simp_all

lemma sent_sends: "sent (map (\<lambda>(block, r). Send block r) out) = map fst out"
  by (induction out) auto

lemma chained_snoc:
  assumes "chained env blks" "Number (Header blk) = of_nat (length blks)"
    "PreviousHash (Header blk) = tip env blks"
  shows "chained env (blks @ [blk])"
  unfolding chained_def
proof (intro allI impI)
  fix i assume i: "i < length (blks @ [blk])"
  show "Number (Header ((blks @ [blk]) ! i)) = of_nat i
      \<and> (0 < i \<longrightarrow> PreviousHash (Header ((blks @ [blk]) ! i))
            = BlockHeader_Hash env (Header ((blks @ [blk]) ! (i - 1))))"
  proof (cases "i < length blks")
    case True
    then have "i - 1 < length blks" by simp
    with True assms(1) show ?thesis by (simp add: chained_def nth_append)
  next
    case False
    with i have e: "i = length blks" by simp
    show ?thesis
    proof (cases "blks = []")
      case True
      with e assms show ?thesis by simp
    next
      case False
      then have "last blks = blks ! (length blks - 1)" by (simp add: last_conv_nth)
      with False e assms(2,3) show ?thesis by (simp add: tip_def nth_append)
    qed
  qed
qed

lemma sendBlock_chain:
  assumes "sendBlock env b = (Sent blk r, b')" "chained env blks" "chain_state env b blks"
  shows "chained env (blks @ [blk]) \<and> chain_state env b' (blks @ [blk])"
proof -
  from assms(1) have blk: "blk = buildBlock env b" and
    st: "nextNumber b' = nextNumber b + 1" "prevHash b' = BlockHeader_Hash env (Header blk)"
    by (auto simp: sendBlock_def Let_def split: sum.splits prod.splits)
  from blk assms(3) have "Number (Header blk) = of_nat (length blks)"
    "PreviousHash (Header blk) = tip env blks"
    by (simp_all add: buildBlock_def chain_state_def Let_def)
  then have "chained env (blks @ [blk])" by (rule chained_snoc [OF assms(2)])
  moreover have "chain_state env b' (blks @ [blk])"
    using st assms(3) by (simp add: chain_state_def tip_def)
  ultimately show ?thesis ..
qed

lemma sendOrPanic_chain:
  assumes "sendOrPanic env b = (out, b', h)" "chained env blks" "chain_state env b blks"
  shows "chained env (blks @ map fst out)
       \<and> ((\<exists>err. h = Some (Exit err)) \<or> chain_state env b' (blks @ map fst out))"
proof (cases "sendBlock env b")
  case (Pair oc b1)
  show ?thesis
  proof (cases oc)
    case (Sent blk r)
    with Pair assms(1) have "out = [(blk, r)]" "b' = b1"
      by (auto simp: sendOrPanic_def split: option.splits)
    with sendBlock_chain [OF Pair [unfolded Sent] assms(2,3)] show ?thesis by simp
  next
    case (Exited err)
    with Pair assms(1) have "out = []" "h = Some (Exit err)"
      by (auto simp: sendOrPanic_def)
    with assms(2) show ?thesis by simp
  qed
qed

lemma chain_state_messages:
  "chain_state env (b\<lparr>messages := ms\<rparr>) blks = chain_state env b blks"
  by (simp add: chain_state_def)

lemma select_case_chain:
  assumes "select_case env period maxSize b t ev = (out, b', t', h)"
    "chained env blks" "chain_state env b blks"
  shows "chained env (blks @ map fst out)
       \<and> ((\<exists>err. h = Some (Exit err)) \<or> chain_state env b' (blks @ map fst out))"
proof (cases ev)
  case (Msg m)
  let ?b1 = "b\<lparr>messages := messages b @ [Data m]\<rparr>"
  have c1: "chain_state env ?b1 blks" using assms(3) by (simp add: chain_state_messages)
  show ?thesis
  proof (cases "\<exists>out1 b1 h1 t1. sendOrPanic env ?b1 = (out1, b1, h1) \<and> out = out1 \<and> b' = b1 \<and> h = h1")
    case True
    then show ?thesis using sendOrPanic_chain [OF _ assms(2) c1] by blast
  next
    case False
    with assms(1) Msg have "out = []" "b' = ?b1"
      by (auto simp: select_case_def Let_def split: prod.splits option.splits if_splits)
    with assms(2) c1 show ?thesis by simp
  qed
next
  case Expire
  show ?thesis
  proof (cases "\<exists>out1 b1 h1. sendOrPanic env b = (out1, b1, h1) \<and> out = out1 \<and> b' = b1 \<and> h = h1")
    case True
    then show ?thesis using sendOrPanic_chain [OF _ assms(2,3)] by blast
  next
    case False
    with assms(1) Expire have "out = []" "b' = b"
      by (auto simp: select_case_def Let_def split: prod.splits option.splits if_splits)
    with assms(2,3) show ?thesis by simp
  qed
next
  case (Elapse d)
  with assms show ?thesis by (simp add: select_case_def)
qed

lemma goroutine_step_chain:
  assumes "chain_inv env s" "halted s = None"
  shows "chain_inv env (goroutine_step env t ev s)"
proof -
  obtain out b' t' h where sc: "select_case env (BatchTimeout (config (impl s)))
      (BatchSize (config (impl s))) (impl s) t ev = (out, b', t', h)"
    by (metis prod_cases4)
  from assms have "chained env (sent (trace s))" "chain_state env (impl s) (sent (trace s))"
    by (auto simp: chain_inv_def)
  from select_case_chain [OF sc this] sc show ?thesis
    by (simp add: chain_inv_def goroutine_step_def sent_append sent_sends)
qed

lemma chain_inv_frame:
  assumes "chain_inv env s" "sent (trace s') = sent (trace s)" "halted s' = halted s"
    "nextNumber (impl s') = nextNumber (impl s)" "prevHash (impl s') = prevHash (impl s)"
  shows "chain_inv env s'"
  using assms by (simp add: chain_inv_def chain_state_def)

lemma once_Do_chain:
  assumes "chain_inv env s" "halted s = None"
  shows "chain_inv env (once_Do env s)"
proof (cases "once (impl s)")
  case True
  with assms show ?thesis by (simp add: once_Do_def)
next
  case False
  from assms have c: "chained env (sent (trace s))" "chain_state env (impl s) (sent (trace s))"
    by (auto simp: chain_inv_def)
  obtain oc b1 where sb: "sendBlock env (impl s) = (oc, b1)" by (cases "sendBlock env (impl s)")
  show ?thesis
  proof (cases oc)
    case (Sent blk r)
    from sendBlock_chain [OF sb [unfolded Sent] c] False sb Sent show ?thesis
      by (simp add: once_Do_def chain_inv_def sent_append chain_state_def)
  next
    case (Exited err)
    with False sb c show ?thesis by (simp add: once_Do_def chain_inv_def)
  qed
qed

lemma alive_cases: "alive s \<Longrightarrow> halted s = None \<or> halted s = Some Stuck"
  by (auto simp: alive_def split: option.splits halt.splits)

lemma chain_inv_init: "chain_inv env (init env conf)"
  by (simp add: chain_inv_def chained_def chain_state_def tip_def init_def newBroadcaster_def)

lemma chain_inv_step: "chain_inv env s \<Longrightarrow> chain_inv env (step env s ev)"
proof (cases "alive s")
  case False
  then show "chain_inv env s \<Longrightarrow> ?thesis" by (simp add: step_def)
next
  case True
  assume inv: "chain_inv env s"
  show ?thesis
  proof (cases ev)
    case (Call h)
    show ?thesis
    proof (cases "halted s = None")
      case True
      from once_Do_chain [OF inv True] have "chain_inv env (once_Do env s)" .
      then have "chain_inv env (Broadcast env h s)"
        by (auto simp: Broadcast_def Let_def elim: chain_inv_frame)
      with inv Call show ?thesis by (simp add: step_def split: option.splits)
    next
      case False
      with \<open>alive s\<close> have st: "halted s = Some Stuck" by (auto dest: alive_cases)
      have "chain_inv env (once_Do env s)"
      proof (cases "once (impl s)")
        case True
        with inv show ?thesis by (simp add: once_Do_def)
      next
        case False
        from inv st have c: "chained env (sent (trace s))" "chain_state env (impl s) (sent (trace s))"
          by (auto simp: chain_inv_def)
        obtain oc b1 where sb: "sendBlock env (impl s) = (oc, b1)" by (cases "sendBlock env (impl s)")
        show ?thesis
        proof (cases oc)
          case (Sent blk r)
          from sendBlock_chain [OF sb [unfolded Sent] c] False sb Sent show ?thesis
            by (simp add: once_Do_def chain_inv_def sent_append chain_state_def)
        next
          case (Exited err)
          with False sb c show ?thesis by (simp add: once_Do_def chain_inv_def)
        qed
      qed
      then have "chain_inv env (Broadcast env h s)"
        by (auto simp: Broadcast_def Let_def elim: chain_inv_frame)
      with inv Call show ?thesis by (simp add: step_def split: option.splits)
    qed
  next
    case (StreamRecv h r)
    with inv show ?thesis
      by (auto simp: step_def recvRequests_Recv_def sent_append
          split: option.splits pc.splits sum.splits elim!: chain_inv_frame)
  next
    case (ChanSend h)
    with inv show ?thesis
      by (auto simp: step_def recvRequests_chan_def
          split: option.splits pc.splits elim!: chain_inv_frame)
  next
    case (StreamSend h r)
    with inv show ?thesis
      by (auto simp: step_def recvRequests_Send_def sent_append
          split: option.splits pc.splits elim!: chain_inv_frame)
  next
    case ChanRecv
    show ?thesis
    proof (cases "\<exists>t msg c. goroutine s = Some t \<and> halted s = None
        \<and> chan_recv (batchChan (impl s)) = Some (msg, c)")
      case True
      then obtain t msg c where g: "goroutine s = Some t" "halted s = None"
        "chan_recv (batchChan (impl s)) = Some (msg, c)" by blast
      let ?s1 = "s\<lparr>impl := (impl s)\<lparr>batchChan := c\<rparr>\<rparr>"
      have "chain_inv env ?s1" using inv by (rule chain_inv_frame) simp_all
      then have "chain_inv env (goroutine_step env t (Msg msg) ?s1)"
        by (rule goroutine_step_chain) (simp add: g)
      with g ChanRecv \<open>alive s\<close> show ?thesis by (simp add: step_def)
    next
      case False
      with ChanRecv have "step env s ev = s"
        by (auto simp: step_def split: option.splits prod.splits)
      with inv show ?thesis by simp
    qed
  next
    case (Handoff h)
    show ?thesis
    proof (cases "\<exists>t msg. goroutine s = Some t \<and> halted s = None
        \<and> handlers s h = Some (AtChanSend msg) \<and> buf (batchChan (impl s)) = []")
      case True
      then obtain t msg where g: "goroutine s = Some t" "halted s = None"
        "handlers s h = Some (AtChanSend msg)" "buf (batchChan (impl s)) = []" by blast
      let ?s1 = "s\<lparr>handlers := (handlers s)(h \<mapsto> AtReply)\<rparr>"
      have "chain_inv env ?s1" using inv by (rule chain_inv_frame) simp_all
      then have "chain_inv env (goroutine_step env t (Msg msg) ?s1)"
        by (rule goroutine_step_chain) (simp add: g)
      with g Handoff \<open>alive s\<close> show ?thesis by (simp add: step_def)
    next
      case False
      with Handoff have "step env s ev = s"
        by (auto simp: step_def split: option.splits prod.splits pc.splits list.splits)
      with inv show ?thesis by simp
    qed
  next
    case TimerC
    show ?thesis
    proof (cases "\<exists>t. goroutine s = Some t \<and> halted s = None")
      case True
      then obtain t where g: "goroutine s = Some t" "halted s = None" by blast
      from goroutine_step_chain [OF inv g(2)] g TimerC \<open>alive s\<close> show ?thesis
        by (simp add: step_def)
    next
      case False
      with TimerC have "step env s ev = s"
        by (auto simp: step_def split: option.splits)
      with inv show ?thesis by simp
    qed
  next
    case (Tick d)
    show ?thesis
    proof (cases "\<exists>t. goroutine s = Some t \<and> halted s = None")
      case True
      then obtain t where g: "goroutine s = Some t" "halted s = None" by blast
      from goroutine_step_chain [OF inv g(2)] g Tick \<open>alive s\<close> show ?thesis
        by (simp add: step_def)
    next
      case False
      with Tick have "step env s ev = s"
        by (auto simp: step_def split: option.splits)
      with inv show ?thesis by simp
    qed
  qed
qed

lemma chain_inv_run: "chain_inv env s \<Longrightarrow> chain_inv env (run env s evs)"
  by (induction evs rule: rev_induct) (simp_all add: run_Nil run_snoc chain_inv_step)

text \<open>
  C3. In every run of the broadcaster, the blocks passed to \<open>producer.Send\<close>, in order,
  are numbered from 0 without gaps: block \<open>i\<close> carries the 64-bit number \<open>i\<close> (read as a
  natural number it is \<open>i\<close> for the first \<open>2^64\<close> blocks), and every block but the first
  carries as \<open>PreviousHash\<close> the hash of the header of the block before it.
\<close>

theorem blocks_are_chained:
  assumes "i < length (sent (trace (run env (init env conf) evs)))"
  shows "Number (Header (sent (trace (run env (init env conf) evs)) ! i)) = of_nat i
       \<and> (i < 2 ^ 64 \<longrightarrow> unat (Number (Header (sent (trace (run env (init env conf) evs)) ! i))) = i)
       \<and> (0 < i \<longrightarrow>
            PreviousHash (Header (sent (trace (run env (init env conf) evs)) ! i))
              = BlockHeader_Hash env (Header (sent (trace (run env (init env conf) evs)) ! (i - 1))))"
proof -
  let ?blks = "sent (trace (run env (init env conf) evs))"
  have "chain_inv env (run env (init env conf) evs)"
    by (rule chain_inv_run [OF chain_inv_init])
  then have c: "chained env ?blks" by (simp add: chain_inv_def)
  with assms have n: "Number (Header (?blks ! i)) = of_nat i"
    and p: "0 < i \<longrightarrow> PreviousHash (Header (?blks ! i)) = BlockHeader_Hash env (Header (?blks ! (i - 1)))"
    by (simp_all add: chained_def)
  have "i < 2 ^ 64 \<longrightarrow> unat (Number (Header (?blks ! i))) = i"
    unfolding n by (simp add: unat_of_nat)
  with n p show ?thesis by blast
qed

lemma chain_demo_sent:
  "sent (trace (run (mockEnv []) (init (mockEnv []) conf3) chain_demo)) =
     [\<lparr>Header = \<lparr>Number = 0, PreviousHash = [], DataHash = ''genesis''\<rparr>,
       Block_Data = \<lparr>BlockData_Data = [''genesis'']\<rparr>\<rparr>,
      \<lparr>Header = \<lparr>Number = 1, PreviousHash = ''#genesis'', DataHash = ''A''\<rparr>,
       Block_Data = \<lparr>BlockData_Data = [''A'']\<rparr>\<rparr>,
      \<lparr>Header = \<lparr>Number = 2, PreviousHash = ''#A'', DataHash = ''B''\<rparr>,
       Block_Data = \<lparr>BlockData_Data = [''B'']\<rparr>\<rparr>]"
  by (simp add: chain_demo_def sys_defs mock_defs cut_defs)

theorem blocks_are_chained_witness:
  "2 < length (sent (trace (run (mockEnv []) (init (mockEnv []) conf3) chain_demo)))
   \<and> Number (Header (sent (trace (run (mockEnv []) (init (mockEnv []) conf3) chain_demo)) ! 2)) = 2
   \<and> unat (Number (Header (sent (trace (run (mockEnv []) (init (mockEnv []) conf3) chain_demo)) ! 2))) = 2
   \<and> PreviousHash (Header (sent (trace (run (mockEnv []) (init (mockEnv []) conf3) chain_demo)) ! 2))
       = BlockHeader_Hash (mockEnv [])
           (Header (sent (trace (run (mockEnv []) (init (mockEnv []) conf3) chain_demo)) ! 1))"
proof -
  have len: "2 < length (sent (trace (run (mockEnv []) (init (mockEnv []) conf3) chain_demo)))"
    by (simp add: chain_demo_sent)
  from blocks_are_chained [OF len] len show ?thesis by simp
qed

subsection \<open>The genesis block\<close>

lemma buildBlock_new: "buildBlock env (newBroadcaster env conf) = genesis env"
  by (simp add: buildBlock_def newBroadcaster_def genesis_def Let_def)

lemma step_init_other:
  "\<forall>h. ev \<noteq> Call h \<Longrightarrow> step env (init env conf) ev = init env conf"
  by (cases ev) (simp_all add: step_def init_def)

lemma trace_first_call:
  "trace (step env (init env conf) (Call h)) =
     (case proto_Marshal env (genesis env) of
        Inr bs \<Rightarrow> [Send (genesis env) (fst (producer_Send env (newProducer env conf) bs))]
      | Inl err \<Rightarrow> [])"
  by (simp add: step_def init_def alive_def Broadcast_def once_Do_def sendBlock_def Let_def
      buildBlock_new [unfolded newBroadcaster_def] newBroadcaster_def
      split: sum.splits prod.splits)

lemma first_call:
  "booted env (step env (init env conf) (Call h)) \<or> exited_at_boot (step env (init env conf) (Call h))"
  by (auto simp: step_def init_def alive_def Broadcast_def once_Do_def sendBlock_def Let_def
      buildBlock_new [unfolded newBroadcaster_def] newBroadcaster_def booted_def exited_at_boot_def
      split: sum.splits prod.splits)

lemma goroutine_step_trace:
  "\<exists>tr'. trace (goroutine_step env t ev s) = trace s @ tr'"
  by (auto simp: goroutine_step_def split: prod.splits)

lemma booted_goroutine_step:
  assumes "booted env s'" "impl s = (impl s')\<lparr>batchChan := c\<rparr>" "trace s = trace s'"
  shows "booted env (goroutine_step env t ev s)"
proof -
  from assms have "once (impl s)" "\<exists>r tr. trace s = Send (genesis env) r # tr"
    by (auto simp: booted_def)
  moreover obtain tr' where "trace (goroutine_step env t ev s) = trace s @ tr'"
    using goroutine_step_trace by blast
  ultimately show ?thesis
    by (auto simp: booted_def goroutine_step_frame)
qed

lemma booted_step: "booted env s \<Longrightarrow> booted env (step env s ev)"
proof (cases ev)
  case (Call h)
  then show "booted env s \<Longrightarrow> ?thesis"
    by (auto simp: step_def booted_def Broadcast_def once_Do_def Let_def split: option.splits)
next
  case (StreamRecv h r)
  then show "booted env s \<Longrightarrow> ?thesis"
    by (auto simp: step_def booted_def recvRequests_Recv_def split: option.splits pc.splits sum.splits)
next
  case (ChanSend h)
  then show "booted env s \<Longrightarrow> ?thesis"
    by (auto simp: step_def booted_def recvRequests_chan_def split: option.splits pc.splits)
next
  case (StreamSend h r)
  then show "booted env s \<Longrightarrow> ?thesis"
    by (auto simp: step_def booted_def recvRequests_Send_def split: option.splits pc.splits)
next
  case ChanRecv
  assume b: "booted env s"
  show ?thesis
  proof (cases "\<exists>t msg c. goroutine s = Some t \<and> halted s = None
        \<and> chan_recv (batchChan (impl s)) = Some (msg, c) \<and> alive s")
    case True
    then obtain t msg c where g: "goroutine s = Some t" "halted s = None"
      "chan_recv (batchChan (impl s)) = Some (msg, c)" "alive s" by blast
    have "booted env (goroutine_step env t (Msg msg) (s\<lparr>impl := (impl s)\<lparr>batchChan := c\<rparr>\<rparr>))"
      by (rule booted_goroutine_step [OF b]) simp_all
    with g ChanRecv show ?thesis by (simp add: step_def)
  next
    case False
    with ChanRecv have "step env s ev = s"
      by (auto simp: step_def split: option.splits prod.splits)
    with b show ?thesis by simp
  qed
next
  case (Handoff h)
  assume b: "booted env s"
  show ?thesis
  proof (cases "\<exists>t msg. goroutine s = Some t \<and> halted s = None
        \<and> handlers s h = Some (AtChanSend msg) \<and> buf (batchChan (impl s)) = [] \<and> alive s")
    case True
    then obtain t msg where g: "goroutine s = Some t" "halted s = None"
      "handlers s h = Some (AtChanSend msg)" "buf (batchChan (impl s)) = []" "alive s" by blast
    have "booted env (goroutine_step env t (Msg msg) (s\<lparr>handlers := (handlers s)(h \<mapsto> AtReply)\<rparr>))"
      by (rule booted_goroutine_step [OF b, where c = "batchChan (impl s)"]) simp_all
    with g Handoff show ?thesis by (simp add: step_def)
  next
    case False
    with Handoff have "step env s ev = s"
      by (auto simp: step_def split: option.splits prod.splits pc.splits list.splits)
    with b show ?thesis by simp
  qed
next
  case TimerC
  assume b: "booted env s"
  have "booted env (goroutine_step env t Expire s)" for t
    by (rule booted_goroutine_step [OF b, where c = "batchChan (impl s)"]) simp_all
  with b TimerC show ?thesis by (auto simp: step_def split: option.splits)
next
  case (Tick d)
  assume b: "booted env s"
  have "booted env (goroutine_step env t (Elapse d) s)" for t
    by (rule booted_goroutine_step [OF b, where c = "batchChan (impl s)"]) simp_all
  with b Tick show ?thesis by (auto simp: step_def split: option.splits)
qed

lemma exited_step: "exited_at_boot s \<Longrightarrow> step env s ev = s"
  by (simp add: exited_at_boot_def step_def)

lemma boot_run:
  "(if \<exists>h. Call h \<in> set evs
    then booted env (run env (init env conf) evs) \<or> exited_at_boot (run env (init env conf) evs)
    else run env (init env conf) evs = init env conf)"
proof (induction evs rule: rev_induct)
  case Nil
  then show ?case by (simp add: run_Nil)
next
  case (snoc ev evs)
  let ?s = "run env (init env conf) evs"
  show ?case
  proof (cases "\<exists>h. Call h \<in> set evs")
    case True
    with snoc have "booted env ?s \<or> exited_at_boot ?s" by simp
    then have "booted env (step env ?s ev) \<or> exited_at_boot (step env ?s ev)"
      by (auto simp: booted_step exited_step)
    with True show ?thesis by (auto simp: run_snoc)
  next
    case False
    with snoc have i: "?s = init env conf" by simp
    show ?thesis
    proof (cases "\<exists>h. ev = Call h")
      case True
      then obtain h where "ev = Call h" by blast
      with i first_call [of env conf h] show ?thesis by (auto simp: run_snoc)
    next
      case False
      with \<open>\<not> (\<exists>h. Call h \<in> set evs)\<close> have "\<not> (\<exists>h. Call h \<in> set (evs @ [ev]))" by auto
      moreover from False i have "step env ?s ev = init env conf"
        by (simp add: step_init_other)
      ultimately show ?thesis by (simp add: run_snoc)
    qed
  qed
qed

lemma booted_call: "booted env s \<Longrightarrow> trace (step env s (Call h)) = trace s"
  by (auto simp: step_def booted_def Broadcast_def once_Do_def Let_def split: option.splits)

lemma no_goroutine_no_receive:
  "goroutine s = None \<Longrightarrow> step env s ChanRecv = s \<and> step env s (Handoff h) = s"
  by (simp add: step_def)

text \<open>
  C6. In every run: if any block has been sent, the first thing observed at all is the
  send of the genesis block, which has number 0, an empty \<open>PreviousHash\<close> and the single
  payload \<open>genesis\<close>; the goroutine of \<open>cutBlock\<close> exists only after that send, and
  without the goroutine nothing is taken from the channel; a call of \<open>Broadcast\<close> that
  comes after another one sends nothing, however many handlers there are; and the
  first call sends exactly the genesis block (nothing, when the block does not marshal
  and \<open>logger.Fatalf\<close> ends the process).
\<close>

theorem genesis_first_and_once:
  "(sent (trace (run env (init env conf) evs)) \<noteq> [] \<longrightarrow>
      (\<exists>r tr. trace (run env (init env conf) evs) = Send (genesis env) r # tr)
      \<and> hd (sent (trace (run env (init env conf) evs))) =
          \<lparr>Header = \<lparr>Number = 0, PreviousHash = [],
                      DataHash = BlockData_Hash env \<lparr>BlockData_Data = [''genesis'']\<rparr>\<rparr>,
           Block_Data = \<lparr>BlockData_Data = [''genesis'']\<rparr>\<rparr>)
   \<and> (goroutine (run env (init env conf) evs) \<noteq> None \<longrightarrow>
        sent (trace (run env (init env conf) evs)) \<noteq> [])
   \<and> (goroutine (run env (init env conf) evs) = None \<longrightarrow>
        step env (run env (init env conf) evs) ChanRecv = run env (init env conf) evs
        \<and> step env (run env (init env conf) evs) (Handoff h') = run env (init env conf) evs)
   \<and> ((\<exists>h0. Call h0 \<in> set evs) \<longrightarrow>
        trace (step env (run env (init env conf) evs) (Call h)) = trace (run env (init env conf) evs))
   \<and> ((\<forall>h0. Call h0 \<notin> set evs) \<longrightarrow>
        trace (run env (init env conf) evs) = []
        \<and> trace (step env (run env (init env conf) evs) (Call h)) =
            (case proto_Marshal env (genesis env) of
               Inr bs \<Rightarrow> [Send (genesis env) (fst (producer_Send env (newProducer env conf) bs))]
             | Inl err \<Rightarrow> []))"
proof -
  let ?s = "run env (init env conf) evs"
  note b = boot_run [of evs env conf]
  have init_facts: "trace (init env conf) = []" "goroutine (init env conf) = None"
    by (simp_all add: init_def)
  have 1: "sent (trace ?s) \<noteq> [] \<longrightarrow>
      (\<exists>r tr. trace ?s = Send (genesis env) r # tr) \<and> hd (sent (trace ?s)) = genesis env"
    using b init_facts by (auto simp: booted_def exited_at_boot_def split: if_splits)
  have 2: "goroutine ?s \<noteq> None \<longrightarrow> sent (trace ?s) \<noteq> []"
    using b init_facts by (auto simp: booted_def exited_at_boot_def split: if_splits)
  have 3: "goroutine ?s = None \<longrightarrow> step env ?s ChanRecv = ?s \<and> step env ?s (Handoff h') = ?s"
    using no_goroutine_no_receive by blast
  have 4: "(\<exists>h0. Call h0 \<in> set evs) \<longrightarrow> trace (step env ?s (Call h)) = trace ?s"
  proof
    assume c: "\<exists>h0. Call h0 \<in> set evs"
    with b have "booted env ?s \<or> exited_at_boot ?s" by simp
    then show "trace (step env ?s (Call h)) = trace ?s"
      by (auto simp: booted_call exited_step)
  qed
  have 5: "(\<forall>h0. Call h0 \<notin> set evs) \<longrightarrow> trace ?s = []
        \<and> trace (step env ?s (Call h)) =
            (case proto_Marshal env (genesis env) of
               Inr bs \<Rightarrow> [Send (genesis env) (fst (producer_Send env (newProducer env conf) bs))]
             | Inl err \<Rightarrow> [])"
    using b init_facts by (auto simp: trace_first_call)
  from 1 2 3 4 5 show ?thesis unfolding genesis_def by blast
qed

theorem genesis_first_and_once_witness:
  "trace (step (mockEnv []) (run (mockEnv []) (init (mockEnv []) conf3) [Call 0, Call 1]) (Call 2))
     = trace (run (mockEnv []) (init (mockEnv []) conf3) [Call 0, Call 1])
   \<and> hd (sent (trace (run (mockEnv []) (init (mockEnv []) conf3) [Call 0, Call 1])))
     = \<lparr>Header = \<lparr>Number = 0, PreviousHash = [], DataHash = ''genesis''\<rparr>,
        Block_Data = \<lparr>BlockData_Data = [''genesis'']\<rparr>\<rparr>
   \<and> trace (step (mockEnv []) (run (mockEnv []) (init (mockEnv []) conf3) []) (Call 0))
     = [Send \<lparr>Header = \<lparr>Number = 0, PreviousHash = [], DataHash = ''genesis''\<rparr>,
               Block_Data = \<lparr>BlockData_Data = [''genesis'']\<rparr>\<rparr> None]"
proof -
  have ne: "sent (trace (run (mockEnv []) (init (mockEnv []) conf3) [Call 0, Call 1])) \<noteq> []"
    by (simp add: sys_defs mock_defs cut_defs)
  have c: "\<exists>h0. Call h0 \<in> set [Call 0, Call 1]" by auto
  have m: "proto_Marshal (mockEnv []) (genesis (mockEnv [])) = Inr ''genesis''"
    "BlockData_Hash (mockEnv []) \<lparr>BlockData_Data = [''genesis'']\<rparr> = ''genesis''"
    "fst (producer_Send (mockEnv []) (newProducer (mockEnv []) conf3) ''genesis'') = None"
    by (simp_all add: genesis_def mock_defs)
  from genesis_first_and_once [of "mockEnv []" conf3 "[Call 0, Call 1]" 0 2] ne c
  have 1: "trace (step (mockEnv []) (run (mockEnv []) (init (mockEnv []) conf3) [Call 0, Call 1]) (Call 2))
     = trace (run (mockEnv []) (init (mockEnv []) conf3) [Call 0, Call 1])"
    and 2: "hd (sent (trace (run (mockEnv []) (init (mockEnv []) conf3) [Call 0, Call 1])))
     = \<lparr>Header = \<lparr>Number = 0, PreviousHash = [], DataHash = ''genesis''\<rparr>,
        Block_Data = \<lparr>BlockData_Data = [''genesis'']\<rparr>\<rparr>"
    by (simp_all add: m)
  from genesis_first_and_once [of "mockEnv []" conf3 "[]" 0 0]
  have 3: "trace (step (mockEnv []) (run (mockEnv []) (init (mockEnv []) conf3) []) (Call 0))
     = [Send \<lparr>Header = \<lparr>Number = 0, PreviousHash = [], DataHash = ''genesis''\<rparr>,
               Block_Data = \<lparr>BlockData_Data = [''genesis'']\<rparr>\<rparr> None]"
    by (simp add: m) (simp add: genesis_def m)
  from 1 2 3 show ?thesis by blast
qed

lemma sendOrPanic_marshalled_trace:
  assumes "proto_Marshal env (buildBlock env b) = Inr bs"
  shows "\<exists>r b' h. sendOrPanic env b = ([(buildBlock env b, r)], b', h) \<and> (h = None \<or> (\<exists>e. h = Some (Panic e)))"
  using assms
  by (auto simp: sendOrPanic_def sendBlock_def Let_def split: prod.splits option.splits)

text \<open>
  C9. Let the send of the genesis block fail. The first call of \<open>Broadcast\<close> still leaves
  the process running: the failed send is in the trace, nothing has halted, the
  goroutine has been started with a fresh timer, and the handler goes on to receive.
  A client message that then arrives is sent in block 1, linked to the genesis block
  (here it reaches the goroutine directly and is cut by its size or by the timer).
\<close>

theorem genesis_failure_is_ignored:
  assumes marshal0: "proto_Marshal env (genesis env) = Inr bs"
    and failed: "producer_Send env (newProducer env conf) bs = (Some e, p')"
    and marshal1: "proto_Marshal env
        \<lparr>Header = \<lparr>Number = 1, PreviousHash = BlockHeader_Hash env (Header (genesis env)),
                    DataHash = BlockData_Hash env \<lparr>BlockData_Data = [Data msg]\<rparr>\<rparr>,
         Block_Data = \<lparr>BlockData_Data = [Data msg]\<rparr>\<rparr> = Inr bs1"
  shows "trace (step env (init env conf) (Call h)) = [Send (genesis env) (Some e)]
       \<and> halted (step env (init env conf) (Call h)) = None
       \<and> goroutine (step env (init env conf) (Call h)) = Some (NewTimer (BatchTimeout conf))
       \<and> handlers (step env (init env conf) (Call h)) h = Some AtRecv
       \<and> sent (trace (run env (init env conf)
            [Call h, StreamRecv h (Inr msg), Handoff h, Tick (nat (BatchTimeout conf)), TimerC]))
          = [genesis env,
             \<lparr>Header = \<lparr>Number = 1, PreviousHash = BlockHeader_Hash env (Header (genesis env)),
                         DataHash = BlockData_Hash env \<lparr>BlockData_Data = [Data msg]\<rparr>\<rparr>,
              Block_Data = \<lparr>BlockData_Data = [Data msg]\<rparr>\<rparr>]"
proof -
  let ?B1 = "\<lparr>Header = \<lparr>Number = 1, PreviousHash = BlockHeader_Hash env (Header (genesis env)),
                    DataHash = BlockData_Hash env \<lparr>BlockData_Data = [Data msg]\<rparr>\<rparr>,
         Block_Data = \<lparr>BlockData_Data = [Data msg]\<rparr>\<rparr>"
  let ?period = "BatchTimeout conf"
  let ?b1 = "(newBroadcaster env conf)\<lparr>messages := [], nextNumber := 1,
      prevHash := BlockHeader_Hash env (Header (genesis env)), producer := p', once := True\<rparr>"
  let ?s1 = "\<lparr>impl = ?b1, goroutine = Some (NewTimer ?period), halted = None,
      handlers = (\<lambda>h. None)(h \<mapsto> AtRecv), trace = [Send (genesis env) (Some e)]\<rparr>"
  have sb: "sendBlock env (newBroadcaster env conf) =
      (Sent (genesis env) (Some e), ?b1\<lparr>once := False\<rparr>)"
    using marshal0 failed
    by (simp add: sendBlock_def Let_def buildBlock_new) (simp add: newBroadcaster_def)
  have s1: "step env (init env conf) (Call h) = ?s1"
    using sb
    by (simp add: step_def init_def alive_def Broadcast_def once_Do_def Let_def)
      (simp add: newBroadcaster_def)
  let ?s2 = "?s1\<lparr>handlers := (\<lambda>h. None)(h \<mapsto> AtChanSend msg),
      trace := [Send (genesis env) (Some e), Recv h msg]\<rparr>"
  have s2: "step env ?s1 (StreamRecv h (Inr msg)) = ?s2"
    by (simp add: step_def alive_def recvRequests_Recv_def)
  let ?b2 = "?b1\<lparr>messages := [Data msg]\<rparr>"
  have bb: "buildBlock env ?b2 = ?B1"
    by (simp add: buildBlock_def Let_def)
  from sendOrPanic_marshalled_trace [of env ?b2 bs1] marshal1 bb
  obtain r b3 h3 where sp: "sendOrPanic env ?b2 = ([(?B1, r)], b3, h3)"
    and h3: "h3 = None \<or> (\<exists>e. h3 = Some (Panic e))"
    by auto
  have conf: "config ?b1 = conf" "batchChan ?b1 = make_chan (unat (BatchSize conf))"
    by (simp_all add: newBroadcaster_def)
  let ?run3 = "run env ?s2 [Handoff h, Tick (nat ?period), TimerC]"
  have "sent (trace ?run3) = [genesis env, ?B1]"
  proof (cases "sint (BatchSize conf) \<le> 1")
    case True
    have sc: "select_case env ?period (BatchSize conf) ?b1 (NewTimer ?period) (Msg msg)
        = ([(?B1, r)], b3, NewTimer ?period, h3)"
      using True sp
      by (simp add: select_case_def Let_def Timer_Stop_def NewTimer_def Timer_Reset_def)
    let ?s3 = "?s2\<lparr>impl := b3, goroutine := Some (NewTimer ?period), halted := h3,
        handlers := (\<lambda>h. None)(h \<mapsto> AtReply),
        trace := [Send (genesis env) (Some e), Recv h msg, Send ?B1 r]\<rparr>"
    have s3: "step env ?s2 (Handoff h) = ?s3"
      using sc conf
      by (simp add: step_def alive_def goroutine_step_def make_chan_def)
    have m3: "messages b3 = []"
      using sp by (auto simp: sendOrPanic_def sendBlock_def Let_def split: prod.splits option.splits sum.splits)
    have c3: "config b3 = conf"
      using sendOrPanic_frame [OF sp] conf by simp
    have "sent (trace (run env ?s3 [Tick (nat ?period), TimerC])) = [genesis env, ?B1]"
    proof (cases "h3 = None")
      case True
      then show ?thesis
        using m3 c3
        by (simp add: run_def step_def alive_def goroutine_step_def select_case_def
            Timer_elapse_def NewTimer_def Timer_recv_def Timer_Reset_def Let_def)
    next
      case False
      with h3 obtain e' where "h3 = Some (Panic e')" by blast
      then show ?thesis
        by (simp add: run_def step_def alive_def)
    qed
    with s3 show ?thesis by (simp add: run_Cons)
  next
    case False
    have sc: "select_case env ?period (BatchSize conf) ?b1 (NewTimer ?period) (Msg msg)
        = ([], ?b2, NewTimer ?period, None)"
      using False by (simp add: select_case_def Let_def)
    let ?s3 = "?s2\<lparr>impl := ?b2, handlers := (\<lambda>h. None)(h \<mapsto> AtReply)\<rparr>"
    have s3: "step env ?s2 (Handoff h) = ?s3"
      using sc conf
      by (simp add: step_def alive_def goroutine_step_def make_chan_def)
    let ?t4 = "\<lparr>active = False, remaining = 0, fired = True\<rparr>"
    let ?s4 = "?s3\<lparr>goroutine := Some ?t4\<rparr>"
    have s4: "step env ?s3 (Tick (nat ?period)) = ?s4"
      using conf
      by (simp add: step_def alive_def goroutine_step_def select_case_def
            Timer_elapse_def NewTimer_def)
    have sc5: "select_case env ?period (BatchSize conf) ?b2 ?t4 Expire
        = ([(?B1, r)], b3, NewTimer ?period, h3)"
      using sp by (simp add: select_case_def Let_def Timer_recv_def Timer_Reset_def NewTimer_def)
    have "sent (trace (step env ?s4 TimerC)) = [genesis env, ?B1]"
      using sc5 conf by (simp add: step_def alive_def goroutine_step_def)
    with s3 s4 show ?thesis by (simp add: run_Cons run_Nil)
  qed
  then have "sent (trace (run env (init env conf)
            [Call h, StreamRecv h (Inr msg), Handoff h, Tick (nat ?period), TimerC])) = [genesis env, ?B1]"
    using s1 s2 by (simp add: run_Cons)
  with s1 show ?thesis by simp
qed

theorem genesis_failure_is_ignored_witness:
  "trace (step (mockEnv [True]) (init (mockEnv [True]) conf3) (Call 0))
     = [Send (genesis (mockEnv [True])) (Some (Error ''broker down''))]
   \<and> halted (step (mockEnv [True]) (init (mockEnv [True]) conf3) (Call 0)) = None
   \<and> sent (trace (run (mockEnv [True]) (init (mockEnv [True]) conf3)
        [Call 0, StreamRecv 0 (Inr msgA), Handoff 0, Tick (nat (BatchTimeout conf3)), TimerC]))
     = [genesis (mockEnv [True]),
        \<lparr>Header = \<lparr>Number = 1, PreviousHash = ''#genesis'', DataHash = ''A''\<rparr>,
         Block_Data = \<lparr>BlockData_Data = [''A'']\<rparr>\<rparr>]"
proof -
  have m0: "proto_Marshal (mockEnv [True]) (genesis (mockEnv [True])) = Inr ''genesis''"
    by (simp add: genesis_def mock_defs)
  have f: "producer_Send (mockEnv [True]) (newProducer (mockEnv [True]) conf3) ''genesis''
      = (Some (Error ''broker down''), [])"
    by (simp add: mock_defs)
  have m1: "proto_Marshal (mockEnv [True])
        \<lparr>Header = \<lparr>Number = 1,
                    PreviousHash = BlockHeader_Hash (mockEnv [True]) (Header (genesis (mockEnv [True]))),
                    DataHash = BlockData_Hash (mockEnv [True]) \<lparr>BlockData_Data = [Data msgA]\<rparr>\<rparr>,
         Block_Data = \<lparr>BlockData_Data = [Data msgA]\<rparr>\<rparr> = Inr ''A''"
    by (simp add: genesis_def mock_defs)
  have v: "BlockHeader_Hash (mockEnv [True]) (Header (genesis (mockEnv [True]))) = ''#genesis''"
    "BlockData_Hash (mockEnv [True]) \<lparr>BlockData_Data = [''A'']\<rparr> = ''A''" "Data msgA = ''A''"
    by (simp_all add: genesis_def mock_defs)
  from genesis_failure_is_ignored [OF m0 f m1, of 0] show ?thesis
    by (simp add: v)
qed

subsection \<open>Replies\<close>

lemma dialogue_snoc_Recv:
  "dialogue P \<Longrightarrow> even (length P) \<Longrightarrow> dialogue (P @ [Recv h msg])"
  by (induction P rule: dialogue.induct) simp_all

lemma dialogue_snoc_Reply:
  "dialogue P \<Longrightarrow> odd (length P) \<Longrightarrow> dialogue (P @ [Reply h \<lparr>Status = Status_SUCCESS\<rparr> r])"
  by (induction P rule: dialogue.induct) simp_all

lemma filter_sends: "filter (of_handler h) (map (\<lambda>(block, r). Send block r) out) = []"
  by (induction out) auto

lemma handler_inv_frame:
  assumes "handler_inv h s" "filter (of_handler h) (trace s') = filter (of_handler h) (trace s)"
    "handlers s' h = handlers s h"
  shows "handler_inv h s'"
  using assms by (simp add: handler_inv_def replying_def)

lemma handler_inv_goroutine_step:
  assumes "handler_inv h s"
  shows "handler_inv h (goroutine_step env t ev s)"
  using assms
  by (rule handler_inv_frame)
    (auto simp: goroutine_step_def filter_sends split: prod.splits)

lemma handler_inv_once_Do:
  assumes "handler_inv h s"
  shows "handler_inv h (once_Do env s)"
  using assms
  by (rule handler_inv_frame)
    (auto simp: once_Do_def split: prod.splits outcome.splits)

lemma handler_inv_init: "handler_inv h (init env conf)"
  by (simp add: handler_inv_def replying_def init_def)

lemma handler_inv_step: "handler_inv h s \<Longrightarrow> handler_inv h (step env s ev)"
proof (cases "alive s")
  case False
  then show "handler_inv h s \<Longrightarrow> ?thesis" by (simp add: step_def)
next
  case True
  assume inv: "handler_inv h s"
  show ?thesis
  proof (cases ev)
    case (Call h')
    have o: "handler_inv h (once_Do env s)" using inv by (rule handler_inv_once_Do)
    have "handler_inv h (Broadcast env h' s)" if "handlers s h' = None"
    proof (cases "h' = h")
      case True
      from o that True have "\<not> replying (once_Do env s) h"
        by (simp add: replying_def once_Do_frame)
      with o True show ?thesis
        by (simp add: Broadcast_def Let_def handler_inv_def replying_def)
    next
      case False
      with o show ?thesis
        by (auto simp: Broadcast_def Let_def elim!: handler_inv_frame)
    qed
    with inv Call True show ?thesis by (simp add: step_def split: option.splits)
  next
    case (StreamRecv h' r)
    show ?thesis
    proof (cases "h' = h")
      case True
      with inv StreamRecv \<open>alive s\<close> show ?thesis
        by (auto simp: step_def recvRequests_Recv_def handler_inv_def replying_def
            dialogue_snoc_Recv split: option.splits pc.splits sum.splits)
    next
      case False
      have "handler_inv h (recvRequests_Recv h' r s)"
        using inv by (rule handler_inv_frame)
          (use False in \<open>auto simp: recvRequests_Recv_def split: sum.splits\<close>)
      with inv StreamRecv \<open>alive s\<close> show ?thesis
        by (simp add: step_def split: option.splits pc.splits)
    qed
  next
    case (ChanSend h')
    have "handler_inv h (recvRequests_chan h' msg s)" if "handlers s h' = Some (AtChanSend msg)" for msg
    proof (cases "h' = h")
      case True
      with inv that show ?thesis
        by (auto simp: recvRequests_chan_def handler_inv_def replying_def split: option.splits)
    next
      case False
      show ?thesis using inv by (rule handler_inv_frame)
          (use False in \<open>auto simp: recvRequests_chan_def split: option.splits\<close>)
    qed
    with inv ChanSend \<open>alive s\<close> show ?thesis
      by (simp add: step_def split: option.splits pc.splits)
  next
    case (StreamSend h' r)
    show ?thesis
    proof (cases "h' = h")
      case True
      with inv StreamSend \<open>alive s\<close> show ?thesis
        by (auto simp: step_def recvRequests_Send_def handler_inv_def replying_def
            dialogue_snoc_Reply split: option.splits pc.splits)
    next
      case False
      have "handler_inv h (recvRequests_Send h' r s)"
        using inv by (rule handler_inv_frame)
          (use False in \<open>auto simp: recvRequests_Send_def\<close>)
      with inv StreamSend \<open>alive s\<close> show ?thesis
        by (simp add: step_def split: option.splits pc.splits)
    qed
  next
    case ChanRecv
    have "handler_inv h (goroutine_step env t (Msg msg) (s\<lparr>impl := (impl s)\<lparr>batchChan := c\<rparr>\<rparr>))" for t msg c
      by (rule handler_inv_goroutine_step) (rule handler_inv_frame [OF inv], simp_all)
    with inv ChanRecv \<open>alive s\<close> show ?thesis
      by (auto simp: step_def split: option.splits prod.splits)
  next
    case (Handoff h')
    have "handler_inv h (s\<lparr>handlers := (handlers s)(h' \<mapsto> AtReply)\<rparr>)"
      if "handlers s h' = Some (AtChanSend msg)" for msg
      using inv that by (auto simp: handler_inv_def replying_def)
    then have "handler_inv h (goroutine_step env t (Msg msg) (s\<lparr>handlers := (handlers s)(h' \<mapsto> AtReply)\<rparr>))"
      if "handlers s h' = Some (AtChanSend msg)" for msg t
      using that by (intro handler_inv_goroutine_step)
    with inv Handoff \<open>alive s\<close> show ?thesis
      by (auto simp: step_def split: option.splits prod.splits pc.splits list.splits)
  next
    case TimerC
    with inv \<open>alive s\<close> show ?thesis
      by (auto simp: step_def handler_inv_goroutine_step split: option.splits)
  next
    case (Tick d)
    with inv \<open>alive s\<close> show ?thesis
      by (auto simp: step_def handler_inv_goroutine_step split: option.splits)
  qed
qed

lemma handler_inv_run: "handler_inv h s \<Longrightarrow> handler_inv h (run env s evs)"
  by (induction evs rule: rev_induct) (simp_all add: run_Nil run_snoc handler_inv_step)

text \<open>
  C8. In every run and for every handler, what the handler receives and replies is a
  dialogue: each received message is followed by exactly one reply before the next
  receive, and every reply carries \<open>Status_SUCCESS\<close>, whatever becomes of the blocks.
  The reply a handler sends is always \<open>Status_SUCCESS\<close>; and when \<open>stream.Recv()\<close> fails,
  the handler returns that error.
\<close>

theorem every_reply_is_success:
  "dialogue (filter (of_handler h) (trace (run env (init env conf) evs)))
   \<and> (alive (run env (init env conf) evs)
        \<and> handlers (run env (init env conf) evs) h = Some AtReply \<longrightarrow>
        trace (step env (run env (init env conf) evs) (StreamSend h r))
          = trace (run env (init env conf) evs) @ [Reply h \<lparr>Status = Status_SUCCESS\<rparr> r])
   \<and> (alive (run env (init env conf) evs)
        \<and> handlers (run env (init env conf) evs) h = Some AtRecv \<longrightarrow>
        handlers (step env (run env (init env conf) evs) (StreamRecv h (Inl err))) h
          = Some (Returned err))"
proof -
  let ?s = "run env (init env conf) evs"
  have "handler_inv h ?s"
    by (rule handler_inv_run [OF handler_inv_init])
  then have 1: "dialogue (filter (of_handler h) (trace ?s))"
    by (simp add: handler_inv_def)
  have 2: "alive ?s \<and> handlers ?s h = Some AtReply \<longrightarrow>
      trace (step env ?s (StreamSend h r)) = trace ?s @ [Reply h \<lparr>Status = Status_SUCCESS\<rparr> r]"
    by (simp add: step_def recvRequests_Send_def)
  have 3: "alive ?s \<and> handlers ?s h = Some AtRecv \<longrightarrow>
      handlers (step env ?s (StreamRecv h (Inl err))) h = Some (Returned err)"
    by (simp add: step_def recvRequests_Recv_def)
  from 1 2 3 show ?thesis by blast
qed

lemma reply_demo_trace:
  "trace (run (mockEnv [False, True]) (init (mockEnv [False, True]) conf3) reply_demo) =
     [Send \<lparr>Header = \<lparr>Number = 0, PreviousHash = [], DataHash = ''genesis''\<rparr>,
             Block_Data = \<lparr>BlockData_Data = [''genesis'']\<rparr>\<rparr> None,
      Recv 0 msgA,
      Reply 0 \<lparr>Status = Status_SUCCESS\<rparr> None,
      Send \<lparr>Header = \<lparr>Number = 1, PreviousHash = ''#genesis'', DataHash = ''A''\<rparr>,
             Block_Data = \<lparr>BlockData_Data = [''A'']\<rparr>\<rparr> (Some (Error ''broker down''))]"
  by (simp add: reply_demo_def sys_defs mock_defs cut_defs)

theorem every_reply_is_success_witness:
  "dialogue [Recv 0 msgA, Reply 0 \<lparr>Status = Status_SUCCESS\<rparr> None]
   \<and> trace (step (mockEnv []) (run (mockEnv []) (init (mockEnv []) conf3)
        [Call 0, StreamRecv 0 (Inr msgA), ChanSend 0]) (StreamSend 0 None))
     = trace (run (mockEnv []) (init (mockEnv []) conf3) [Call 0, StreamRecv 0 (Inr msgA), ChanSend 0])
       @ [Reply 0 \<lparr>Status = Status_SUCCESS\<rparr> None]
   \<and> handlers (step (mockEnv []) (run (mockEnv []) (init (mockEnv []) conf3) [Call 0])
        (StreamRecv 0 (Inl (Error ''EOF'')))) 0 = Some (Returned (Error ''EOF''))"
proof -
  have 1: "dialogue [Recv 0 msgA, Reply 0 \<lparr>Status = Status_SUCCESS\<rparr> None]"
    using every_reply_is_success [of 0 "mockEnv [False, True]" conf3 reply_demo]
    by (simp add: reply_demo_trace)
  have a: "alive (run (mockEnv []) (init (mockEnv []) conf3) [Call 0, StreamRecv 0 (Inr msgA), ChanSend 0])"
    "handlers (run (mockEnv []) (init (mockEnv []) conf3) [Call 0, StreamRecv 0 (Inr msgA), ChanSend 0]) 0
       = Some AtReply"
    by (simp_all add: sys_defs mock_defs cut_defs)
  have b: "alive (run (mockEnv []) (init (mockEnv []) conf3) [Call 0])"
    "handlers (run (mockEnv []) (init (mockEnv []) conf3) [Call 0]) 0 = Some AtRecv"
    by (simp_all add: sys_defs mock_defs cut_defs)
  from every_reply_is_success [of 0 "mockEnv []" conf3 "[Call 0, StreamRecv 0 (Inr msgA), ChanSend 0]" None] a
  have 2: "trace (step (mockEnv []) (run (mockEnv []) (init (mockEnv []) conf3)
        [Call 0, StreamRecv 0 (Inr msgA), ChanSend 0]) (StreamSend 0 None))
     = trace (run (mockEnv []) (init (mockEnv []) conf3) [Call 0, StreamRecv 0 (Inr msgA), ChanSend 0])
       @ [Reply 0 \<lparr>Status = Status_SUCCESS\<rparr> None]"
    by blast
  from every_reply_is_success [of 0 "mockEnv []" conf3 "[Call 0]" _ "Error ''EOF''"] b
  have 3: "handlers (step (mockEnv []) (run (mockEnv []) (init (mockEnv []) conf3) [Call 0])
        (StreamRecv 0 (Inl (Error ''EOF'')))) 0 = Some (Returned (Error ''EOF''))"
    by blast
  from 1 2 3 show ?thesis by blast
qed

end
